theory Spec2Isabelle
  imports Main "HOL-Library.Sublist"
begin

chapter \<open>The program\<close>

section \<open>Python strings\<close>

text \<open>
  A Python \<open>str\<close> is a sequence of Unicode code points, so it is modelled as a list of
  natural numbers (one per code point), not as a list of bytes. \<open>u\<close> turns an ASCII
  literal into such a string.
\<close>

type_synonym pystr = "nat list"

definition u :: "string \<Rightarrow> pystr" where
  "u s = map of_char s"

text \<open>
  \<open>str.isspace\<close> on one code point; the same table decides \<open>\s\<close> of the \<open>re\<close>
  module on \<open>str\<close> patterns and the characters \<open>str.strip()\<close> removes.
\<close>

definition isspace :: "nat \<Rightarrow> bool" where
  "isspace c =
     ((9 \<le> c \<and> c \<le> 13) \<or> (28 \<le> c \<and> c \<le> 32) \<or> c = 133 \<or> c = 160 \<or> c = 5760
      \<or> (8192 \<le> c \<and> c \<le> 8202) \<or> c = 8232 \<or> c = 8233 \<or> c = 8239 \<or> c = 8287
      \<or> c = 12288)"

definition lstrip :: "pystr \<Rightarrow> pystr" where
  "lstrip s = dropWhile isspace s"

definition rstrip :: "pystr \<Rightarrow> pystr" where
  "rstrip s = rev (dropWhile isspace (rev s))"

definition strip :: "pystr \<Rightarrow> pystr" where
  "strip s = rstrip (lstrip s)"

text \<open>\<open>strip_prefix t s\<close> is the rest of \<open>s\<close> after its prefix \<open>t\<close>, if \<open>t\<close> is one.\<close>

definition strip_prefix :: "pystr \<Rightarrow> pystr \<Rightarrow> pystr option" where
  "strip_prefix t s = (if prefix t s then Some (drop (length t) s) else None)"

section \<open>html.escape\<close>

text \<open>
  \<open>s.replace(c, r)\<close> for a one-character \<open>c\<close>, and \<open>html.escape(s)\<close> (with its default
  \<open>quote=True\<close>) as the library writes it: five replacements one after the other, the
  ampersand first.
\<close>

definition replace_chr :: "nat \<Rightarrow> pystr \<Rightarrow> pystr \<Rightarrow> pystr" where
  "replace_chr c r s = concat (map (\<lambda>x. if x = c then r else [x]) s)"

definition escape :: "pystr \<Rightarrow> pystr" where
  "escape s =
     replace_chr 39 (u ''&#x27;'')
       (replace_chr 34 (u ''&quot;'')
         (replace_chr 62 (u ''&gt;'')
           (replace_chr 60 (u ''&lt;'')
             (replace_chr 38 (u ''&amp;'') s))))"

section \<open>The inline-markdown converter\<close>

text \<open>
  The three substitutions of \<open>markdown_inline_to_html\<close> have the shape
  \<open>re.sub(D(.+?)D, L\1R, s)\<close> for a literal delimiter \<open>D\<close> (three, two or one asterisk).

  \<open>find_close d s\<close> is the lazy expansion of \<open>.+?\<close> after its first character: it stops at
  the first position where the closing delimiter matches, and gives up at a line feed
  (code point 10), which \<open>.\<close> does not match. It returns the characters it consumed and
  the text after the closing delimiter.

  \<open>match_at d s\<close> is one attempt of the pattern at the start of \<open>s\<close>: the delimiter, one
  character that is not a line feed, then \<open>find_close\<close>.

  \<open>re_sub_wrap d l r s\<close> is \<open>re.sub\<close>: the leftmost match, replaced, then on from the end of
  that match; a character where no match starts is copied.
\<close>

fun find_close :: "pystr \<Rightarrow> pystr \<Rightarrow> (pystr \<times> pystr) option" where
  "find_close d [] = (if prefix d [] then Some ([], []) else None)"
| "find_close d (c # cs) =
     (if prefix d (c # cs) then Some ([], drop (length d) (c # cs))
      else if c = 10 then None
      else (case find_close d cs of
              None \<Rightarrow> None
            | Some (x, rest) \<Rightarrow> Some (c # x, rest)))"

definition match_at :: "pystr \<Rightarrow> pystr \<Rightarrow> (pystr \<times> pystr) option" where
  "match_at d s =
     (if prefix d s then
        (case drop (length d) s of
           [] \<Rightarrow> None
         | c # cs \<Rightarrow>
             if c = 10 then None
             else (case find_close d cs of
                     None \<Rightarrow> None
                   | Some (x, rest) \<Rightarrow> Some (c # x, rest)))
      else None)"

lemma find_close_Some:
  "find_close d s = Some (x, rest) \<Longrightarrow> s = x @ d @ rest \<and> 10 \<notin> set x"
proof (induction s arbitrary: x)
  case Nil
  then show ?case by (simp split: if_splits)
next
  case (Cons c cs)
  show ?case
  proof (cases "prefix d (c # cs)")
    case True
    with Cons.prems have "x = []" "rest = drop (length d) (c # cs)" by auto
    with True show ?thesis by (auto simp: prefix_def)
  next
    case False
    with Cons.prems obtain y where y: "find_close d cs = Some (y, rest)" "x = c # y" "c \<noteq> 10"
      by (auto split: if_splits option.splits)
    from Cons.IH[OF y(1)] y(2,3) show ?thesis by simp
  qed
qed

lemma match_at_Some:
  assumes "match_at d s = Some (x, rest)"
  shows "s = d @ x @ d @ rest \<and> x \<noteq> [] \<and> 10 \<notin> set x"
proof -
  from assms have p: "prefix d s"
    by (simp add: match_at_def split: if_splits)
  then obtain t where t: "s = d @ t" by (auto simp: prefix_def)
  with assms p obtain c cs y where
    y: "t = c # cs" "c \<noteq> 10" "find_close d cs = Some (y, rest)" "x = c # y"
    by (auto simp: match_at_def split: list.splits if_splits option.splits)
  from find_close_Some[OF y(3)] t y show ?thesis by simp
qed

lemma match_at_length: "match_at d s = Some (x, rest) \<Longrightarrow> length rest < length s"
  using match_at_Some[of d s x rest] by (cases x) auto

function re_sub_wrap :: "pystr \<Rightarrow> pystr \<Rightarrow> pystr \<Rightarrow> pystr \<Rightarrow> pystr" where
  "re_sub_wrap d l r [] = []"
| "re_sub_wrap d l r (c # cs) =
     (case match_at d (c # cs) of
        Some (x, rest) \<Rightarrow> l @ x @ r @ re_sub_wrap d l r rest
      | None \<Rightarrow> c # re_sub_wrap d l r cs)"
  by pat_completeness auto
termination
  by (relation "measure (\<lambda>(d, l, r, s). length s)") (auto dest: match_at_length)

text \<open>
  \<open>markdown_inline_to_html(text)\<close>: the empty string for \<open>None\<close>; otherwise escape, then
  the three substitutions in the order of the source.
\<close>

definition markdown_inline_to_html :: "pystr option \<Rightarrow> pystr" where
  "markdown_inline_to_html text =
     (case text of
        None \<Rightarrow> []
      | Some t \<Rightarrow>
          (let s = escape t;
               s = re_sub_wrap (u ''***'') (u ''<strong><em>'') (u ''</em></strong>'') s;
               s = re_sub_wrap (u ''**'') (u ''<strong>'') (u ''</strong>'') s;
               s = re_sub_wrap (u ''*'') (u ''<em>'') (u ''</em>'') s
           in s))"

section \<open>Parsed JSON values\<close>

text \<open>
  What \<open>json.loads\<close> returns: \<open>None\<close>, a \<open>bool\<close>, an \<open>int\<close>, a \<open>float\<close>, a \<open>str\<close>, a
  \<open>list\<close> or a \<open>dict\<close> with \<open>str\<close> keys. A \<open>dict\<close> is an association list in insertion
  order; a key is looked up with \<open>map_of\<close> (\<open>json.loads\<close> builds no duplicate key). Of a
  \<open>float\<close> the program only uses whether it is zero: \<open>Finite m e\<close> stands for
  \<open>m * 2 ^ e\<close>.
\<close>

datatype pyfloat = Finite int int | Infinite bool | NaN

datatype json =
    JNull
  | JBool bool
  | JInt int
  | JFloat pyfloat
  | JStr pystr
  | JArr "json list"
  | JObj "(pystr \<times> json) list"

text \<open>The exceptions the modelled functions raise.\<close>

datatype error =
    JSONDecodeError pystr pystr nat
  | TypeError
  | AttributeError
  | KeyError
  | ValueError
  | RecursionError

text \<open>
  \<open>truthy\<close> is Python's truth value; \<open>py_or a b\<close> is \<open>a or b\<close>; \<open>dict_get d k dflt\<close> is
  \<open>d.get(k, dflt)\<close> (and \<open>d.get(k)\<close> with \<open>JNull\<close> for \<open>dflt\<close>); \<open>dict_set k v d\<close> is
  \<open>d[k] = v\<close>; \<open>getitem v k\<close> is \<open>v[k]\<close> for a string \<open>k\<close>. \<open>hashable\<close> holds for every value
  but a \<open>list\<close> or a \<open>dict\<close>, and \<open>in_str_set v strs\<close> is \<open>v in {...}\<close> for a set of strings:
  the test hashes \<open>v\<close> and raises \<open>TypeError\<close> when it cannot.
\<close>

fun truthy :: "json \<Rightarrow> bool" where
  "truthy JNull = False"
| "truthy (JBool b) = b"
| "truthy (JInt i) = (i \<noteq> 0)"
| "truthy (JFloat f) = (case f of Finite m e \<Rightarrow> m \<noteq> 0 | _ \<Rightarrow> True)"
| "truthy (JStr s) = (s \<noteq> [])"
| "truthy (JArr xs) = (xs \<noteq> [])"
| "truthy (JObj d) = (d \<noteq> [])"

definition py_or :: "json \<Rightarrow> json \<Rightarrow> json" where
  "py_or a b = (if truthy a then a else b)"

definition dict_get :: "(pystr \<times> json) list \<Rightarrow> pystr \<Rightarrow> json \<Rightarrow> json" where
  "dict_get d k dflt = (case map_of d k of Some v \<Rightarrow> v | None \<Rightarrow> dflt)"

fun dict_set :: "pystr \<Rightarrow> json \<Rightarrow> (pystr \<times> json) list \<Rightarrow> (pystr \<times> json) list" where
  "dict_set k v [] = [(k, v)]"
| "dict_set k v ((k', v') # kvs) =
     (if k' = k then (k, v) # kvs else (k', v') # dict_set k v kvs)"

fun hashable :: "json \<Rightarrow> bool" where
  "hashable (JArr xs) = False"
| "hashable (JObj d) = False"
| "hashable v = True"

definition in_str_set :: "json \<Rightarrow> pystr list \<Rightarrow> error + bool" where
  "in_str_set v strs = (if hashable v then Inr (v \<in> set (map JStr strs)) else Inl TypeError)"

section \<open>The schema normalizer\<close>

text \<open>
  \<open>for_each body v\<close> is a loop \<open>for x in v: body(x)\<close> whose body may update \<open>x\<close> in place
  or raise. Iterating over a \<open>list\<close> visits its elements, which the body's updates
  replace; over a \<open>str\<close> its characters and over a \<open>dict\<close> its keys, which are strings that
  no body can update; any other value raises \<open>TypeError\<close>.

  \<open>compat_item\<close> is the body of the inner loop of the \<open>sections\<close> branch (\<open>it.get\<close> raises
  \<open>AttributeError\<close> unless \<open>it\<close> is a \<open>dict\<close>), \<open>compat_section\<close> the body of the outer
  loop, with \<open>sec.get("items", [])\<close> as the value the inner loop iterates over.
\<close>

fun map_err :: "('a \<Rightarrow> error + 'b) \<Rightarrow> 'a list \<Rightarrow> error + 'b list" where
  "map_err f [] = Inr []"
| "map_err f (x # xs) =
     (case f x of
        Inl e \<Rightarrow> Inl e
      | Inr y \<Rightarrow> (case map_err f xs of Inl e \<Rightarrow> Inl e | Inr ys \<Rightarrow> Inr (y # ys)))"

definition compat_item :: "json \<Rightarrow> error + json" where
  "compat_item it =
     (case it of
        JObj d \<Rightarrow>
          if dict_get d (u ''text'') JNull = JNull \<and> dict_get d (u ''content'') JNull \<noteq> JNull
          then Inr (JObj (dict_set (u ''text'') (dict_get d (u ''content'') JNull) d))
          else Inr (JObj d)
      | _ \<Rightarrow> Inl AttributeError)"

definition for_each :: "(json \<Rightarrow> error + json) \<Rightarrow> json \<Rightarrow> error + json" where
  "for_each body v =
     (case v of
        JArr xs \<Rightarrow> (case map_err body xs of Inl e \<Rightarrow> Inl e | Inr ys \<Rightarrow> Inr (JArr ys))
      | JStr s \<Rightarrow>
          (case map_err body (map (\<lambda>c. JStr [c]) s) of Inl e \<Rightarrow> Inl e | Inr ys \<Rightarrow> Inr (JStr s))
      | JObj d \<Rightarrow>
          (case map_err body (map (\<lambda>kv. JStr (fst kv)) d) of
             Inl e \<Rightarrow> Inl e
           | Inr ys \<Rightarrow> Inr (JObj d))
      | _ \<Rightarrow> Inl TypeError)"

definition compat_section :: "json \<Rightarrow> error + json" where
  "compat_section sec =
     (case sec of
        JObj d \<Rightarrow>
          (case map_of d (u ''items'') of
             None \<Rightarrow> Inr (JObj d)
           | Some items \<Rightarrow>
               (case for_each compat_item items of
                  Inl e \<Rightarrow> Inl e
                | Inr items' \<Rightarrow> Inr (JObj (dict_set (u ''items'') items' d))))
      | _ \<Rightarrow> Inl AttributeError)"

text \<open>
  The array branch: \<open>array_items data items\<close> is the loop that appends one built item for
  each \<open>dict\<close> of \<open>data\<close> and skips the other elements; \<open>promote_heading\<close> is the rest of
  the branch.
\<close>

definition array_text :: "(pystr \<times> json) list \<Rightarrow> json" where
  "array_text d =
     py_or (py_or (dict_get d (u ''text'') JNull) (dict_get d (u ''content'') JNull)) (JStr [])"

definition array_type :: "(pystr \<times> json) list \<Rightarrow> json" where
  "array_type d = py_or (dict_get d (u ''type'') JNull) (JStr (u ''p''))"

definition array_item :: "(pystr \<times> json) list \<Rightarrow> json" where
  "array_item d = JObj [(u ''type'', array_type d), (u ''text'', array_text d)]"

fun array_items :: "json list \<Rightarrow> json list \<Rightarrow> json list" where
  "array_items [] items = items"
| "array_items (it # rest) items =
     (case it of
        JObj d \<Rightarrow> array_items rest (items @ [array_item d])
      | _ \<Rightarrow> array_items rest items)"

definition getitem :: "json \<Rightarrow> pystr \<Rightarrow> error + json" where
  "getitem v k =
     (case v of
        JObj d \<Rightarrow> (case map_of d k of Some x \<Rightarrow> Inr x | None \<Rightarrow> Inl KeyError)
      | _ \<Rightarrow> Inl TypeError)"

definition one_section :: "json \<Rightarrow> json list \<Rightarrow> json" where
  "one_section heading items =
     JObj [(u ''sections'',
            JArr [JObj [(u ''heading'', heading), (u ''type'', JStr (u ''h2'')),
                        (u ''items'', JArr items)]])]"

definition empty_document :: json where
  "empty_document = JObj [(u ''sections'', JArr [])]"

definition promote_heading :: "json list \<Rightarrow> error + json" where
  "promote_heading items =
     (case items of
        [] \<Rightarrow> Inr (one_section (JStr []) items)
      | first # rest \<Rightarrow>
          (case getitem first (u ''type'') of
             Inl e \<Rightarrow> Inl e
           | Inr ty \<Rightarrow>
               (case in_str_set ty [u ''h1'', u ''h2'', u ''h3''] of
                  Inl e \<Rightarrow> Inl e
                | Inr True \<Rightarrow>
                    (case getitem first (u ''text'') of
                       Inl e \<Rightarrow> Inl e
                     | Inr heading \<Rightarrow> Inr (one_section heading rest))
                | Inr False \<Rightarrow> Inr (one_section (JStr []) items))))"

definition coerce_to_sections_schema :: "json \<Rightarrow> error + json" where
  "coerce_to_sections_schema data =
     (case data of
        JObj d \<Rightarrow>
          (case map_of d (u ''sections'') of
             Some secs \<Rightarrow>
               (case for_each compat_section secs of
                  Inl e \<Rightarrow> Inl e
                | Inr secs' \<Rightarrow> Inr (JObj (dict_set (u ''sections'') secs' d)))
           | None \<Rightarrow> Inr empty_document)
      | JArr xs \<Rightarrow> promote_heading (array_items xs [])
      | _ \<Rightarrow> Inr empty_document)"


section \<open>The HTML renderer\<close>

text \<open>
  \<open>join sep xs\<close> is \<open>sep.join(xs)\<close>. \<open>contains_str t s\<close> is \<open>t in s\<close> for two strings.
  \<open>py_iter v\<close> are the values a \<open>for\<close> loop over \<open>v\<close> visits: the elements of a \<open>list\<close>,
  the characters of a \<open>str\<close>, the keys of a \<open>dict\<close>; any other value raises \<open>TypeError\<close>.
  \<open>py_contains v k\<close> is \<open>k in v\<close> for a string \<open>k\<close>.
\<close>

fun join :: "pystr \<Rightarrow> pystr list \<Rightarrow> pystr" where
  "join sep [] = []"
| "join sep [x] = x"
| "join sep (x # y # rest) = x @ sep @ join sep (y # rest)"

fun contains_str :: "pystr \<Rightarrow> pystr \<Rightarrow> bool" where
  "contains_str t [] = (t = [])"
| "contains_str t (c # cs) = (prefix t (c # cs) \<or> contains_str t cs)"

definition py_iter :: "json \<Rightarrow> error + json list" where
  "py_iter v =
     (case v of
        JArr xs \<Rightarrow> Inr xs
      | JStr s \<Rightarrow> Inr (map (\<lambda>c. JStr [c]) s)
      | JObj d \<Rightarrow> Inr (map (\<lambda>kv. JStr (fst kv)) d)
      | _ \<Rightarrow> Inl TypeError)"

definition py_contains :: "json \<Rightarrow> pystr \<Rightarrow> error + bool" where
  "py_contains v k =
     (case v of
        JObj d \<Rightarrow> Inr (map_of d k \<noteq> None)
      | JArr xs \<Rightarrow> Inr (JStr k \<in> set xs)
      | JStr s \<Rightarrow> Inr (contains_str k s)
      | _ \<Rightarrow> Inl TypeError)"

text \<open>
  \<open>markdown_value v\<close> is \<open>markdown_inline_to_html(v)\<close> for a JSON value: the empty string
  for \<open>None\<close>, the conversion of a \<open>str\<close>, and \<open>AttributeError\<close> for any other value, on
  which \<open>html.escape\<close> calls \<open>replace\<close>.
\<close>

definition markdown_value :: "json \<Rightarrow> error + pystr" where
  "markdown_value v =
     (case v of
        JNull \<Rightarrow> Inr (markdown_inline_to_html None)
      | JStr s \<Rightarrow> Inr (markdown_inline_to_html (Some s))
      | _ \<Rightarrow> Inl AttributeError)"

text \<open>
  \<open>strip_bullet text\<close> is \<open>re.sub(r"^\s*\<bullet>\s*", "", text)\<close>: the pattern can only match
  at the start of the text, where it takes the white space, one bullet (code point
  8226) and the white space after it.
\<close>

definition strip_bullet :: "pystr \<Rightarrow> pystr" where
  "strip_bullet text =
     (case dropWhile isspace text of
        [] \<Rightarrow> text
      | c # rest \<Rightarrow> if c = 8226 then dropWhile isspace rest else text)"

definition li_block :: "pystr \<Rightarrow> pystr" where
  "li_block text = u ''<li>'' @ strip (strip_bullet text) @ u ''</li>''"

definition p_block :: "pystr \<Rightarrow> pystr" where
  "p_block text = u ''<p>'' @ text @ u ''</p>''"

definition heading_block :: "pystr \<Rightarrow> pystr" where
  "heading_block heading = u ''<p><strong>'' @ heading @ u ''</strong></p>''"

text \<open>
  The state of the loop over the items of a section is the pair of the list \<open>html\<close> of
  emitted blocks and the pending \<open>buffer\<close> of list items. \<open>flush\<close> is the inner function
  of that name. \<open>item_block item\<close> is what the loop body computes from one item before it
  touches the state: whether its type is \<open>li\<close>, and its block. \<open>render_item\<close> is the loop
  body, \<open>render_items\<close> the loop, \<open>render_section\<close> the body of the loop over the sections.
\<close>

definition flush :: "pystr list \<times> pystr list \<Rightarrow> pystr list \<times> pystr list" where
  "flush st =
     (case st of (html, buffer) \<Rightarrow>
        if buffer \<noteq> [] then (html @ [u ''<ul>''] @ buffer @ [u ''</ul>''], [])
        else (html, buffer))"

definition item_block :: "json \<Rightarrow> error + (bool \<times> pystr)" where
  "item_block item =
     (case item of
        JObj d \<Rightarrow>
          (case markdown_value (py_or (dict_get d (u ''text'') (JStr [])) (JStr [])) of
             Inl e \<Rightarrow> Inl e
           | Inr text \<Rightarrow>
               if dict_get d (u ''type'') (JStr (u ''p'')) = JStr (u ''li'')
               then Inr (True, li_block text)
               else Inr (False, p_block text))
      | _ \<Rightarrow> Inl AttributeError)"

definition render_item ::
  "json \<Rightarrow> pystr list \<times> pystr list \<Rightarrow> error + (pystr list \<times> pystr list)" where
  "render_item item st =
     (case item_block item of
        Inl e \<Rightarrow> Inl e
      | Inr (is_li, block) \<Rightarrow>
          if is_li then Inr (fst st, snd st @ [block])
          else (case flush st of (html, buffer) \<Rightarrow> Inr (html @ [block], buffer)))"

fun render_items ::
  "json list \<Rightarrow> pystr list \<times> pystr list \<Rightarrow> error + (pystr list \<times> pystr list)" where
  "render_items [] st = Inr st"
| "render_items (item # rest) st =
     (case render_item item st of
        Inl e \<Rightarrow> Inl e
      | Inr st' \<Rightarrow> render_items rest st')"

definition render_section :: "json \<Rightarrow> pystr list \<Rightarrow> error + pystr list" where
  "render_section section html =
     (case section of
        JObj d \<Rightarrow>
          (case markdown_value (dict_get d (u ''heading'') (JStr [])) of
             Inl e \<Rightarrow> Inl e
           | Inr heading \<Rightarrow>
               (let html = (if heading \<noteq> [] then html @ [heading_block heading] else html)
                in case py_iter (dict_get d (u ''items'') (JArr [])) of
                     Inl e \<Rightarrow> Inl e
                   | Inr items \<Rightarrow>
                       (case render_items items (html, []) of
                          Inl e \<Rightarrow> Inl e
                        | Inr st \<Rightarrow> Inr (fst (flush st)))))
      | _ \<Rightarrow> Inl AttributeError)"

fun render_sections :: "json list \<Rightarrow> pystr list \<Rightarrow> error + pystr list" where
  "render_sections [] html = Inr html"
| "render_sections (section # rest) html =
     (case render_section section html of
        Inl e \<Rightarrow> Inl e
      | Inr html' \<Rightarrow> render_sections rest html')"

definition build_html_from_sections :: "json \<Rightarrow> error + pystr" where
  "build_html_from_sections data =
     (if \<not> truthy data then Inr (u ''<p>Erro ao processar dados</p>'')
      else (case py_contains data (u ''sections'') of
              Inl e \<Rightarrow> Inl e
            | Inr False \<Rightarrow> Inr (u ''<p>Erro ao processar dados</p>'')
            | Inr True \<Rightarrow>
                (case getitem data (u ''sections'') of
                   Inl e \<Rightarrow> Inl e
                 | Inr secs \<Rightarrow>
                     (case py_iter secs of
                        Inl e \<Rightarrow> Inl e
                      | Inr sections \<Rightarrow>
                          (case render_sections sections [] of
                             Inl e \<Rightarrow> Inl e
                           | Inr html \<Rightarrow> Inr (join [10] html))))))"

section \<open>The response extractor\<close>

text \<open>
  \<open>py_find s t\<close> is \<open>s.find(t)\<close> and \<open>py_rfind s t\<close> is \<open>s.rfind(t)\<close>: the index of the first
  and of the last occurrence, or \<open>-1\<close>. \<open>py_slice s a b\<close> is the slice \<open>s[a:b]\<close>: a negative
  index counts from the end, and both are clamped to the string.
\<close>

fun find_from :: "pystr \<Rightarrow> pystr \<Rightarrow> nat \<Rightarrow> int" where
  "find_from t [] i = (if t = [] then int i else - 1)"
| "find_from t (c # cs) i = (if prefix t (c # cs) then int i else find_from t cs (Suc i))"

definition py_find :: "pystr \<Rightarrow> pystr \<Rightarrow> int" where
  "py_find s t = find_from t s 0"

fun rfind_from :: "pystr \<Rightarrow> pystr \<Rightarrow> nat \<Rightarrow> int \<Rightarrow> int" where
  "rfind_from t [] i found = (if t = [] then int i else found)"
| "rfind_from t (c # cs) i found =
     rfind_from t cs (Suc i) (if prefix t (c # cs) then int i else found)"

definition py_rfind :: "pystr \<Rightarrow> pystr \<Rightarrow> int" where
  "py_rfind s t = rfind_from t s 0 (- 1)"

definition clamp_index :: "nat \<Rightarrow> int \<Rightarrow> nat" where
  "clamp_index n i = (if i < 0 then nat (max (i + int n) 0) else min (nat i) n)"

definition py_slice :: "pystr \<Rightarrow> int \<Rightarrow> int \<Rightarrow> pystr" where
  "py_slice s a b =
     (let start = clamp_index (length s) a; stop = clamp_index (length s) b
      in take (stop - start) (drop start s))"

text \<open>
  The pattern of the fence, \<open>```(?:json)?\s*([\s\S]*?)\s*```\<close>, as the backtracking
  matcher of \<open>re\<close> runs it. \<open>ws_then k s\<close> is a greedy \<open>\s*\<close> followed by the rest \<open>k\<close> of the
  pattern: it takes white space as long as it can and gives characters back while \<open>k\<close>
  fails. \<open>lazy_group s\<close> is the lazy group followed by \<open>\s*```\<close>: it returns the shortest
  text after which the rest matches. \<open>fence_at s\<close> is one attempt of the pattern at the
  start of \<open>s\<close>, with the optional \<open>json\<close> tried first; \<open>re_search_fence s\<close> is \<open>re.search\<close>,
  which returns the attempt at the leftmost position where one succeeds. The value is
  the text of group 1.
\<close>

fun ws_then :: "(pystr \<Rightarrow> 'a option) \<Rightarrow> pystr \<Rightarrow> 'a option" where
  "ws_then k [] = k []"
| "ws_then k (c # cs) =
     (if isspace c
      then (case ws_then k cs of Some r \<Rightarrow> Some r | None \<Rightarrow> k (c # cs))
      else k (c # cs))"

fun lazy_group :: "pystr \<Rightarrow> pystr option" where
  "lazy_group [] =
     (case ws_then (strip_prefix (u ''```'')) [] of Some r \<Rightarrow> Some [] | None \<Rightarrow> None)"
| "lazy_group (c # cs) =
     (case ws_then (strip_prefix (u ''```'')) (c # cs) of
        Some r \<Rightarrow> Some []
      | None \<Rightarrow> (case lazy_group cs of Some g \<Rightarrow> Some (c # g) | None \<Rightarrow> None))"

definition fence_at :: "pystr \<Rightarrow> pystr option" where
  "fence_at s =
     (case strip_prefix (u ''```'') s of
        None \<Rightarrow> None
      | Some r \<Rightarrow>
          (case (case strip_prefix (u ''json'') r of
                   Some r' \<Rightarrow> ws_then lazy_group r'
                 | None \<Rightarrow> None) of
             Some g \<Rightarrow> Some g
           | None \<Rightarrow> ws_then lazy_group r))"

fun re_search_fence :: "pystr \<Rightarrow> pystr option" where
  "re_search_fence [] = fence_at []"
| "re_search_fence (c # cs) =
     (case fence_at (c # cs) of Some g \<Rightarrow> Some g | None \<Rightarrow> re_search_fence cs)"

text \<open>
  \<open>json_candidate text\<close> is the string the function hands to \<open>json.loads\<close>.
  \<open>json.loads\<close> itself is a parameter \<open>loads\<close> of the model. Its outcome is the parsed
  value; or the \<open>JSONDecodeError\<close> it raises, given by its message and position (the
  document of that error is the string \<open>json.loads\<close> was given); or another exception:
  \<open>json.loads\<close> raises \<open>ValueError\<close> on an integer literal beyond the interpreter's digit
  limit and \<open>RecursionError\<close> on a nesting that is too deep. The function catches none
  of them.
\<close>

datatype loaded = Loaded json | DecodeError pystr nat | OtherError error

definition json_candidate :: "pystr \<Rightarrow> pystr" where
  "json_candidate text =
     (let s = strip text
      in case re_search_fence s of
           Some g \<Rightarrow> strip g
         | None \<Rightarrow>
             if prefix (u ''['') s
             then py_slice s (py_find s (u ''['')) (py_rfind s (u '']'') + 1)
             else py_slice s (py_find s (u ''{'')) (py_rfind s (u ''}'') + 1))"

definition extract_json_from_model_output ::
  "(pystr \<Rightarrow> loaded) \<Rightarrow> pystr option \<Rightarrow> error + json" where
  "extract_json_from_model_output loads text =
     (case text of
        None \<Rightarrow> Inl (JSONDecodeError (u ''empty'') [] 0)
      | Some t \<Rightarrow>
          if t = [] then Inl (JSONDecodeError (u ''empty'') [] 0)
          else (case loads (json_candidate t) of
                  Loaded v \<Rightarrow> Inr v
                | DecodeError msg pos \<Rightarrow> Inl (JSONDecodeError msg (json_candidate t) pos)
                | OtherError e \<Rightarrow> Inl e))"

chapter \<open>Notions the properties are stated with\<close>

section \<open>The markup of the converter's output\<close>

text \<open>
  The converter writes four tags: \<open><strong>\<close>, \<open></strong>\<close>, \<open><em>\<close> and \<open></em>\<close>.
  \<open>only_own_tags s\<close> reads \<open>s\<close> from the left and holds when every \<open><\<close> (code point 60)
  starts one of these four tags and no \<open>>\<close> (code point 62) stands outside of them.
\<close>

definition strip_own_tag :: "pystr \<Rightarrow> pystr option" where
  "strip_own_tag s =
     (case strip_prefix (u ''<strong>'') s of Some r \<Rightarrow> Some r | None \<Rightarrow>
     (case strip_prefix (u ''</strong>'') s of Some r \<Rightarrow> Some r | None \<Rightarrow>
     (case strip_prefix (u ''<em>'') s of Some r \<Rightarrow> Some r | None \<Rightarrow>
      strip_prefix (u ''</em>'') s)))"

lemma strip_prefix_Some: "strip_prefix t s = Some r \<Longrightarrow> s = t @ r"
  by (auto simp: strip_prefix_def prefix_def split: if_splits)

lemma strip_own_tag_Some:
  assumes "strip_own_tag s = Some r"
  shows "\<exists>t. s = t @ r \<and> t \<noteq> [] \<and> 42 \<notin> set t \<and> hd t = 60"
proof -
  from assms obtain t where t: "strip_prefix t s = Some r"
    "t = u ''<strong>'' \<or> t = u ''</strong>'' \<or> t = u ''<em>'' \<or> t = u ''</em>''"
    by (auto simp: strip_own_tag_def split: option.splits)
  from t(2) have "t \<noteq> [] \<and> 42 \<notin> set t \<and> hd t = 60"
    by (auto simp: u_def)
  with strip_prefix_Some[OF t(1)] show ?thesis by blast
qed

lemma strip_own_tag_length: "strip_own_tag s = Some r \<Longrightarrow> length r < length s"
  using strip_own_tag_Some[of s r] by auto

function only_own_tags :: "pystr \<Rightarrow> bool" where
  "only_own_tags [] = True"
| "only_own_tags (c # cs) =
     (case strip_own_tag (c # cs) of
        Some rest \<Rightarrow> only_own_tags rest
      | None \<Rightarrow> c \<noteq> 60 \<and> c \<noteq> 62 \<and> only_own_tags cs)"
  by pat_completeness auto
termination
  by (relation "measure length") (auto dest: strip_own_tag_length)

section \<open>Values the normalizer accepts\<close>

text \<open>
  \<open>dicts_of xs\<close> are the mapping elements of an array, in order. \<open>coercible\<close> describes the
  values on which the normalizer returns.
\<close>

fun dicts_of :: "json list \<Rightarrow> (pystr \<times> json) list list" where
  "dicts_of [] = []"
| "dicts_of (JObj d # rest) = d # dicts_of rest"
| "dicts_of (v # rest) = dicts_of rest"

definition first_type_hashable :: "json list \<Rightarrow> bool" where
  "first_type_hashable xs = (case dicts_of xs of [] \<Rightarrow> True | d # ds \<Rightarrow> hashable (array_type d))"

fun is_dict :: "json \<Rightarrow> bool" where
  "is_dict (JObj d) = True"
| "is_dict v = False"

fun is_list :: "json \<Rightarrow> bool" where
  "is_list (JArr xs) = True"
| "is_list v = False"

definition has_key :: "json \<Rightarrow> pystr \<Rightarrow> bool" where
  "has_key v k = (case v of JObj d \<Rightarrow> map_of d k \<noteq> None | _ \<Rightarrow> False)"

definition list_of_dicts :: "json \<Rightarrow> (json \<Rightarrow> bool) \<Rightarrow> bool" where
  "list_of_dicts v ok =
     (case v of
        JArr xs \<Rightarrow> list_all ok xs
      | JStr s \<Rightarrow> s = []
      | JObj d \<Rightarrow> d = []
      | _ \<Rightarrow> False)"

definition section_ok :: "json \<Rightarrow> bool" where
  "section_ok sec =
     (case sec of
        JObj d \<Rightarrow> (case map_of d (u ''items'') of None \<Rightarrow> True | Some v \<Rightarrow> list_of_dicts v is_dict)
      | _ \<Rightarrow> False)"

definition coercible :: "json \<Rightarrow> bool" where
  "coercible data =
     (case data of
        JObj d \<Rightarrow>
          (case map_of d (u ''sections'') of
             None \<Rightarrow> True
           | Some v \<Rightarrow> list_of_dicts v section_ok)
      | JArr xs \<Rightarrow> first_type_hashable xs
      | _ \<Rightarrow> True)"

section \<open>Grouping of blocks\<close>

text \<open>
  The grouping the spec describes, on the items' blocks: each maximal run of \<open>li\<close> blocks
  is wrapped into one list block, every other block stands alone.
\<close>

function group_blocks :: "(bool \<times> pystr) list \<Rightarrow> pystr list" where
  "group_blocks [] = []"
| "group_blocks ((is_li, block) # rest) =
     (if is_li
      then [u ''<ul>''] @ block # map snd (takeWhile fst rest) @ [u ''</ul>'']
             @ group_blocks (dropWhile fst rest)
      else block # group_blocks rest)"
  by pat_completeness auto
termination
  by (relation "measure length") (auto simp: less_Suc_eq_le length_dropWhile_le)

section \<open>A parser for the examples\<close>

text \<open>
  A fragment of \<open>json.loads\<close> for the closed examples. It reads four strings as the
  library reads them: the two documents it parses; the empty string, which \<open>json.loads\<close>
  rejects with \<open>Expecting value\<close> at position 0; and \<open>deep_array\<close>, an array nested
  100000 deep, on which \<open>json.loads\<close> raises \<open>RecursionError\<close>. The examples give it no
  other string.
\<close>

definition deep_array :: pystr where
  "deep_array = replicate 100000 91 @ replicate 100000 93"

definition sample_loads :: "pystr \<Rightarrow> loaded" where
  \<open>sample_loads s =
     (if s = u ''{"sections":[]}'' then Loaded (JObj [(u ''sections'', JArr [])])
      else if s = u ''{"a": [1]}'' then Loaded (JObj [(u ''a'', JArr [JInt 1])])
      else if s = deep_array then OtherError RecursionError
      else DecodeError (u ''Expecting value'') 0)\<close>

chapter \<open>Properties\<close>

section \<open>Lemmas on the inline-markdown converter\<close>

lemma prefix_append_sep:
  assumes "x \<notin> set t"
  shows "prefix t (a @ x # b) = prefix t a"
proof
  assume "prefix t (a @ x # b)"
  then obtain zs where "a @ x # b = t @ zs" by (auto simp: prefix_def)
  then obtain us where "(a = t @ us \<and> us @ x # b = zs) \<or> (a @ us = t \<and> x # b = us @ zs)"
    by (auto simp: append_eq_append_conv2)
  then show "prefix t a"
  proof
    assume "a = t @ us \<and> us @ x # b = zs"
    then show ?thesis by simp
  next
    assume h: "a @ us = t \<and> x # b = us @ zs"
    with assms have "us = []" by (cases us) auto
    with h show ?thesis by simp
  qed
next
  assume "prefix t a" then show "prefix t (a @ x # b)" by (simp add: prefix_prefix)
qed

lemma strip_prefix_append_sep:
  "strip_prefix t (a @ x # b) = map_option (\<lambda>r. r @ x # b) (strip_prefix t a)" if "x \<notin> set t"
proof (cases "prefix t a")
  case True
  then have "length t \<le> length a" by (auto simp: prefix_def)
  with True show ?thesis by (simp add: strip_prefix_def prefix_append_sep[OF that])
next
  case False
  then show ?thesis by (simp add: strip_prefix_def prefix_append_sep[OF that])
qed

lemma strip_prefix_append:
  "strip_prefix t a = Some r \<Longrightarrow> strip_prefix t (a @ b) = Some (r @ b)"
  by (auto simp: strip_prefix_def prefix_def split: if_splits)

lemma strip_own_tag_append_sep:
  "strip_own_tag (a @ 42 # b) = map_option (\<lambda>r. r @ 42 # b) (strip_own_tag a)"
proof -
  have t: "42 \<notin> set (u ''<strong>'')" "42 \<notin> set (u ''</strong>'')"
    "42 \<notin> set (u ''<em>'')" "42 \<notin> set (u ''</em>'')"
    by (simp_all add: u_def)
  show ?thesis
    unfolding strip_own_tag_def
    by (simp add: strip_prefix_append_sep[OF t(1)] strip_prefix_append_sep[OF t(2)]
        strip_prefix_append_sep[OF t(3)] strip_prefix_append_sep[OF t(4)]
        split: option.splits)
qed

lemma strip_own_tag_tags:
  "strip_own_tag (u ''<strong>'' @ r) = Some r"
  "strip_own_tag (u ''</strong>'' @ r) = Some r"
  "strip_own_tag (u ''<em>'' @ r) = Some r"
  "strip_own_tag (u ''</em>'' @ r) = Some r"
  by (simp_all add: strip_own_tag_def strip_prefix_def u_def)

lemma strip_own_tag_cases:
  assumes "strip_own_tag s = Some r"
  shows "s = u ''<strong>'' @ r \<or> s = u ''</strong>'' @ r \<or> s = u ''<em>'' @ r \<or> s = u ''</em>'' @ r"
  using assms unfolding strip_own_tag_def
  by (auto split: option.splits dest: strip_prefix_Some)

lemma strip_own_tag_append:
  assumes "strip_own_tag a = Some r"
  shows "strip_own_tag (a @ b) = Some (r @ b)"
  using strip_own_tag_cases[OF assms] strip_own_tag_tags[of "r @ b"] by auto

lemma strip_own_tag_not_lt: "c \<noteq> 60 \<Longrightarrow> strip_own_tag (c # cs) = None"
  by (simp add: strip_own_tag_def strip_prefix_def u_def)

lemma only_own_tags_tags:
  "only_own_tags (u ''<strong>'' @ r) = only_own_tags r"
  "only_own_tags (u ''</strong>'' @ r) = only_own_tags r"
  "only_own_tags (u ''<em>'' @ r) = only_own_tags r"
  "only_own_tags (u ''</em>'' @ r) = only_own_tags r"
proof -
  have "only_own_tags (t @ r) = only_own_tags r"
    if "strip_own_tag (t @ r) = Some r" "t \<noteq> []" for t
    using that by (cases t) auto
  from this[OF strip_own_tag_tags(1)] this[OF strip_own_tag_tags(2)]
    this[OF strip_own_tag_tags(3)] this[OF strip_own_tag_tags(4)]
  show "only_own_tags (u ''<strong>'' @ r) = only_own_tags r"
    "only_own_tags (u ''</strong>'' @ r) = only_own_tags r"
    "only_own_tags (u ''<em>'' @ r) = only_own_tags r"
    "only_own_tags (u ''</em>'' @ r) = only_own_tags r"
    by (simp_all add: u_def)
qed

lemma only_own_tags_plain: "c \<noteq> 60 \<Longrightarrow> only_own_tags (c # cs) = (c \<noteq> 62 \<and> only_own_tags cs)"
  by (simp add: strip_own_tag_not_lt)

lemma only_own_tags_no_angle: "60 \<notin> set s \<Longrightarrow> 62 \<notin> set s \<Longrightarrow> only_own_tags s"
  by (induction s) (auto simp: strip_own_tag_not_lt)

lemma only_own_tags_split: "only_own_tags (a @ 42 # b) = (only_own_tags a \<and> only_own_tags b)"
proof (induction a rule: only_own_tags.induct)
  case 1
  show ?case by (simp add: strip_own_tag_not_lt)
next
  case (2 c cs)
  show ?case
  proof (cases "strip_own_tag (c # cs)")
    case None
    then have "strip_own_tag (c # cs @ 42 # b) = None"
      using strip_own_tag_append_sep[of "c # cs" b] by simp
    with None "2.IH" show ?thesis by simp
  next
    case (Some r)
    then have "strip_own_tag (c # cs @ 42 # b) = Some (r @ 42 # b)"
      using strip_own_tag_append_sep[of "c # cs" b] by simp
    with Some "2.IH" show ?thesis by simp
  qed
qed

lemma only_own_tags_append:
  "only_own_tags a \<Longrightarrow> only_own_tags b \<Longrightarrow> only_own_tags (a @ b)"
proof (induction a rule: only_own_tags.induct)
  case 1
  then show ?case by simp
next
  case (2 c cs)
  show ?case
  proof (cases "strip_own_tag (c # cs)")
    case None
    with "2.prems" have c: "c \<noteq> 60" "c \<noteq> 62" "only_own_tags cs" by auto
    with "2.IH" None "2.prems" have "only_own_tags (cs @ b)" by simp
    with c show ?thesis by (simp add: strip_own_tag_not_lt)
  next
    case (Some r)
    from strip_own_tag_append[OF Some, of b]
    have "strip_own_tag (c # (cs @ b)) = Some (r @ b)" by simp
    moreover from Some "2.prems" have "only_own_tags r" by simp
    ultimately show ?thesis using "2.IH" Some "2.prems" by simp
  qed
qed

lemma only_own_tags_stars:
  "set d \<subseteq> {42} \<Longrightarrow> only_own_tags (d @ s) = only_own_tags s"
  by (induction d) (auto simp: strip_own_tag_not_lt)

lemma only_own_tags_between:
  assumes "set d \<subseteq> {42}" "d \<noteq> []"
  shows "only_own_tags (x @ d @ rest) = (only_own_tags x \<and> only_own_tags rest)"
proof -
  from assms obtain d' where d: "d = 42 # d'" "set d' \<subseteq> {42}" by (cases d) auto
  show ?thesis
    using only_own_tags_split[of x "d' @ rest"] only_own_tags_stars[OF d(2), of rest] d(1)
    by simp
qed

lemma match_at_no_start:
  assumes "d \<noteq> []" "hd d \<noteq> c"
  shows "match_at d (c # cs) = None"
  using assms by (cases d) (auto simp: match_at_def)

lemma re_sub_wrap_skip:
  assumes "d \<noteq> []" "hd d \<notin> set a"
  shows "re_sub_wrap d l r (a @ b) = a @ re_sub_wrap d l r b"
  using assms(2)
proof (induction a)
  case Nil
  show ?case by simp
next
  case (Cons c a)
  then have "match_at d (c # a @ b) = None"
    using match_at_no_start[OF assms(1), of c "a @ b"] by auto
  with Cons show ?case by simp
qed

lemma re_sub_wrap_own_tags:
  assumes d: "set d \<subseteq> {42}" "d \<noteq> []"
    and l: "only_own_tags l" and r: "only_own_tags r"
  shows "only_own_tags s \<Longrightarrow> only_own_tags (re_sub_wrap d l r s)"
proof (induction s rule: length_induct)
  case (1 s)
  from d have hd: "hd d = 42" by (cases d) auto
  show ?case
  proof (cases s)
    case Nil
    then show ?thesis by simp
  next
    case (Cons c cs)
    show ?thesis
    proof (cases "strip_own_tag s")
      case (Some rest)
      from strip_own_tag_Some[OF Some] obtain t where
        t: "s = t @ rest" "t \<noteq> []" "42 \<notin> set t" by blast
      from Some Cons "1.prems" have vr: "only_own_tags rest" by simp
      from t have "length rest < length s" by simp
      with "1.IH" vr have ih: "only_own_tags (re_sub_wrap d l r rest)" by blast
      have eq: "re_sub_wrap d l r s = t @ re_sub_wrap d l r rest"
        using re_sub_wrap_skip[OF d(2), of t l r rest] t hd by simp
      from strip_own_tag_cases[OF Some] t(1) show ?thesis
        unfolding eq using ih t(1)
        by (auto simp: only_own_tags_tags)
    next
      case None
      with Cons "1.prems" have c: "c \<noteq> 60" "c \<noteq> 62" "only_own_tags cs" by auto
      show ?thesis
      proof (cases "match_at d s")
        case None
        from c(3) "1.IH" Cons have "only_own_tags (re_sub_wrap d l r cs)" by simp
        with None Cons c show ?thesis by (simp add: strip_own_tag_not_lt)
      next
        case (Some p)
        obtain x rest where p: "p = (x, rest)" by (cases p)
        from match_at_Some[of d s x rest] Some p
        have s: "s = d @ x @ d @ rest" by simp
        with "1.prems" have "only_own_tags (x @ d @ rest)"
          using only_own_tags_stars[OF d(1), of "x @ d @ rest"] by simp
        then have v: "only_own_tags x" "only_own_tags rest"
          using only_own_tags_between[OF d, of x rest] by simp_all
        from s d(2) have "length rest < length s" by (cases d) auto
        with "1.IH" v(2) have "only_own_tags (re_sub_wrap d l r rest)" by blast
        with v(1) l r have "only_own_tags (l @ x @ r @ re_sub_wrap d l r rest)"
          by (simp add: only_own_tags_append)
        with Some p Cons show ?thesis by simp
      qed
    qed
  qed
qed

lemma replace_chr_removes: "c \<notin> set r \<Longrightarrow> c \<notin> set (replace_chr c r s)"
  by (induction s) (auto simp: replace_chr_def)

lemma replace_chr_keeps_out:
  "x \<notin> set s \<Longrightarrow> x \<notin> set r \<Longrightarrow> x \<notin> set (replace_chr c r s)"
  by (induction s) (auto simp: replace_chr_def)

lemma replace_chr_absent: "c \<notin> set s \<Longrightarrow> replace_chr c r s = s"
  by (induction s) (auto simp: replace_chr_def)

lemma escape_no_angle: "60 \<notin> set (escape t) \<and> 62 \<notin> set (escape t)"
proof -
  let ?s1 = "replace_chr 38 (u ''&amp;'') t"
  let ?s2 = "replace_chr 60 (u ''&lt;'') ?s1"
  let ?s3 = "replace_chr 62 (u ''&gt;'') ?s2"
  let ?s4 = "replace_chr 34 (u ''&quot;'') ?s3"
  have a2: "60 \<notin> set ?s2" by (rule replace_chr_removes) (simp add: u_def)
  have a3: "60 \<notin> set ?s3" by (rule replace_chr_keeps_out[OF a2]) (simp add: u_def)
  have b3: "62 \<notin> set ?s3" by (rule replace_chr_removes) (simp add: u_def)
  have a4: "60 \<notin> set ?s4" by (rule replace_chr_keeps_out[OF a3]) (simp add: u_def)
  have b4: "62 \<notin> set ?s4" by (rule replace_chr_keeps_out[OF b3]) (simp add: u_def)
  have a5: "60 \<notin> set (escape t)"
    unfolding escape_def by (rule replace_chr_keeps_out[OF a4]) (simp add: u_def)
  have b5: "62 \<notin> set (escape t)"
    unfolding escape_def by (rule replace_chr_keeps_out[OF b4]) (simp add: u_def)
  from a5 b5 show ?thesis by simp
qed

lemma escape_keeps_out:
  assumes "x \<notin> set t" "x \<notin> set (u ''&amp;lt;gt;quot;#x27;'')"
  shows "x \<notin> set (escape t)"
  unfolding escape_def using assms
  by (intro replace_chr_keeps_out) (auto simp: u_def)

lemma escape_plain:
  assumes "set s \<inter> {38, 60, 62, 34, 39} = {}"
  shows "escape s = s"
  using assms by (simp add: escape_def replace_chr_absent)

lemma re_sub_wrap_absent:
  assumes "d \<noteq> []" "hd d \<notin> set s"
  shows "re_sub_wrap d l r s = s"
  using re_sub_wrap_skip[OF assms, of l r "[]"] by simp

lemma markdown_no_star:
  assumes "42 \<notin> set s"
  shows "markdown_inline_to_html (Some s) = escape s"
proof -
  from assms have e: "42 \<notin> set (escape s)"
    by (rule escape_keeps_out) (simp add: u_def)
  have h: "u ''***'' \<noteq> [] \<and> hd (u ''***'') = 42" "u ''**'' \<noteq> [] \<and> hd (u ''**'') = 42"
    "u ''*'' \<noteq> [] \<and> hd (u ''*'') = 42"
    by (simp_all add: u_def)
  from e h show ?thesis
    by (simp add: markdown_inline_to_html_def Let_def re_sub_wrap_absent)
qed

section \<open>Properties of the inline-markdown converter\<close>



text \<open>
  Claim C6. The converter escapes the raw text before any substitution: the escaped
  text has no angle bracket left, and in the output every angle bracket belongs to one
  of the four tags the converter writes itself. An input \<open><script>\<close> comes out with its
  brackets escaped, also when markdown stands inside tags of the input.
\<close>

theorem markdown_escapes_first:
  "markdown_inline_to_html (Some t) =
     re_sub_wrap (u ''*'') (u ''<em>'') (u ''</em>'')
       (re_sub_wrap (u ''**'') (u ''<strong>'') (u ''</strong>'')
         (re_sub_wrap (u ''***'') (u ''<strong><em>'') (u ''</em></strong>'') (escape t)))
   \<and> 60 \<notin> set (escape t) \<and> 62 \<notin> set (escape t)
   \<and> only_own_tags (markdown_inline_to_html (Some t))
   \<and> markdown_inline_to_html (Some (u ''<script>'')) = u ''&lt;script&gt;''
   \<and> markdown_inline_to_html (Some (u ''<b>*x*</b>'')) = u ''&lt;b&gt;<em>x</em>&lt;/b&gt;''"
proof -
  let ?s1 = "re_sub_wrap (u ''***'') (u ''<strong><em>'') (u ''</em></strong>'') (escape t)"
  let ?s2 = "re_sub_wrap (u ''**'') (u ''<strong>'') (u ''</strong>'') ?s1"
  let ?s3 = "re_sub_wrap (u ''*'') (u ''<em>'') (u ''</em>'') ?s2"
  have order: "markdown_inline_to_html (Some t) = ?s3"
    by (simp add: markdown_inline_to_html_def Let_def)
  have d: "set (u ''***'') \<subseteq> {42} \<and> u ''***'' \<noteq> []"
    "set (u ''**'') \<subseteq> {42} \<and> u ''**'' \<noteq> []"
    "set (u ''*'') \<subseteq> {42} \<and> u ''*'' \<noteq> []"
    by (simp_all add: u_def)
  have tags: "only_own_tags (u ''<strong><em>'')" "only_own_tags (u ''</em></strong>'')"
    "only_own_tags (u ''<strong>'')" "only_own_tags (u ''</strong>'')"
    "only_own_tags (u ''<em>'')" "only_own_tags (u ''</em>'')"
    by code_simp+
  have v0: "only_own_tags (escape t)"
    using escape_no_angle[of t] by (simp add: only_own_tags_no_angle)
  have v1: "only_own_tags ?s1"
    using re_sub_wrap_own_tags[OF _ _ tags(1) tags(2) v0] d(1) by blast
  have v2: "only_own_tags ?s2"
    using re_sub_wrap_own_tags[OF _ _ tags(3) tags(4) v1] d(2) by blast
  have v3: "only_own_tags ?s3"
    using re_sub_wrap_own_tags[OF _ _ tags(5) tags(6) v2] d(3) by blast
  have e1: "markdown_inline_to_html (Some (u ''<script>'')) = u ''&lt;script&gt;''"
    by code_simp
  have e2: "markdown_inline_to_html (Some (u ''<b>*x*</b>'')) = u ''&lt;b&gt;<em>x</em>&lt;/b&gt;''"
    by code_simp
  from order v3 escape_no_angle[of t] e1 e2 show ?thesis by simp
qed

theorem markdown_escapes_first_witness:
  "only_own_tags (markdown_inline_to_html (Some (u ''<i>**<b>**</i>'')))
   \<and> markdown_inline_to_html (Some (u ''<i>**<b>**</i>''))
       = u ''&lt;i&gt;<strong>&lt;b&gt;</strong>&lt;/i&gt;''"
proof -
  have a: "only_own_tags (markdown_inline_to_html (Some (u ''<i>**<b>**</i>'')))"
    using markdown_escapes_first[of "u ''<i>**<b>**</i>''"] by blast
  have b: "markdown_inline_to_html (Some (u ''<i>**<b>**</i>''))
       = u ''&lt;i&gt;<strong>&lt;b&gt;</strong>&lt;/i&gt;''"
    by code_simp
  from a b show ?thesis by (intro conjI)
qed

text \<open>
  Claim C8, as the spec states it, fails: the converter escapes its input again, so an
  already escaped text that holds an entity is changed. \<open>&lt;\<close> is the escaped form of
  \<open><\<close> and has no asterisk; the converter turns it into \<open>&amp;lt;\<close>, and a second pass
  into \<open>&amp;amp;lt;\<close>.
\<close>

theorem markdown_idempotent_counterexample:
  "escape (u ''<'') = u ''&lt;''
   \<and> 42 \<notin> set (u ''&lt;'')
   \<and> markdown_inline_to_html (Some (u ''&lt;'')) = u ''&amp;lt;''
   \<and> markdown_inline_to_html (Some (u ''&lt;'')) \<noteq> u ''&lt;''
   \<and> markdown_inline_to_html (Some (markdown_inline_to_html (Some (u ''&lt;''))))
       \<noteq> markdown_inline_to_html (Some (u ''&lt;''))"
  by code_simp

text \<open>
  Claim C8, amended. On a text with no asterisk the converter is \<open>html.escape\<close>; when
  the text has, besides no asterisk, none of the five characters that \<open>html.escape\<close>
  rewrites (ampersand, the two angle brackets, the two quotes), the converter returns it
  unchanged, and so does a second pass.
\<close>

theorem markdown_plain_fixed:
  assumes "42 \<notin> set s"
  shows "markdown_inline_to_html (Some s) = escape s
     \<and> (set s \<inter> {38, 60, 62, 34, 39} = {} \<longrightarrow>
         markdown_inline_to_html (Some s) = s \<and>
         markdown_inline_to_html (Some (markdown_inline_to_html (Some s))) =
           markdown_inline_to_html (Some s))"
proof -
  have e: "markdown_inline_to_html (Some s) = escape s"
    using assms by (rule markdown_no_star)
  have "escape s = s" if "set s \<inter> {38, 60, 62, 34, 39} = {}"
    using that by (rule escape_plain)
  with e show ?thesis by simp
qed

theorem markdown_plain_fixed_witness:
  "42 \<notin> set (u ''a b.'') \<and> set (u ''a b.'') \<inter> {38, 60, 62, 34, 39} = {}
   \<and> markdown_inline_to_html (Some (u ''a b.'')) = escape (u ''a b.'')
   \<and> markdown_inline_to_html (Some (u ''a b.'')) = u ''a b.''
   \<and> markdown_inline_to_html (Some (markdown_inline_to_html (Some (u ''a b.'')))) =
       markdown_inline_to_html (Some (u ''a b.''))"
proof -
  have h1: "42 \<notin> set (u ''a b.'')" by (simp add: u_def)
  have h2: "set (u ''a b.'') \<inter> {38, 60, 62, 34, 39} = {}" by (simp add: u_def)
  from markdown_plain_fixed[OF h1] h2
  have "markdown_inline_to_html (Some (u ''a b.'')) = escape (u ''a b.'')
     \<and> markdown_inline_to_html (Some (u ''a b.'')) = u ''a b.''
     \<and> markdown_inline_to_html (Some (markdown_inline_to_html (Some (u ''a b.'')))) =
         markdown_inline_to_html (Some (u ''a b.''))"
    by blast
  with h1 h2 show ?thesis by (intro conjI) blast+
qed

section \<open>Properties of the schema normalizer\<close>

lemma array_items_eq: "array_items xs acc = acc @ map array_item (dicts_of xs)"
  by (induction xs acc rule: array_items.induct) (auto split: json.splits)

lemma isl_case_Inr [simp]:
  "isl (case r of Inl e \<Rightarrow> Inl e | Inr x \<Rightarrow> Inr (f x)) = isl r"
  by (cases r) auto

lemma map_err_isl: "(\<not> isl (map_err f xs)) = list_all (\<lambda>x. \<not> isl (f x)) xs"
proof (induction xs)
  case Nil
  show ?case by simp
next
  case (Cons x xs)
  show ?case
  proof (cases "f x")
    case (Inl e)
    then show ?thesis by simp
  next
    case (Inr y)
    with Cons show ?thesis by simp
  qed
qed

lemma compat_item_isl: "(\<not> isl (compat_item it)) = is_dict it"
  by (cases it) (simp_all add: compat_item_def)

lemma for_each_isl:
  assumes nd: "\<And>x. \<not> is_dict x \<Longrightarrow> isl (body x)" and ok: "\<And>x. (\<not> isl (body x)) = ok x"
  shows "(\<not> isl (for_each body v)) = list_of_dicts v ok"
proof (cases v)
  case (JArr xs)
  have "(\<not> isl (map_err body xs)) = list_all ok xs"
    by (simp add: map_err_isl ok)
  with JArr show ?thesis
    by (simp add: for_each_def list_of_dicts_def)
next
  case (JStr s)
  have c: "isl (body (JStr [c]))" for c
    using nd[of "JStr [c]"] by simp
  have "(\<not> isl (map_err body (map (\<lambda>c. JStr [c]) s))) = (s = [])"
    using c by (cases s) (simp_all add: map_err_isl del: map_err.simps)
  with JStr show ?thesis
    by (simp add: for_each_def list_of_dicts_def)
next
  case (JObj d)
  have c: "isl (body (JStr k))" for k
    using nd[of "JStr k"] by simp
  have "(\<not> isl (map_err body (map (\<lambda>kv. JStr (fst kv)) d))) = (d = [])"
    using c by (cases d) (simp_all add: map_err_isl del: map_err.simps)
  with JObj show ?thesis
    by (simp add: for_each_def list_of_dicts_def)
qed (simp_all add: for_each_def list_of_dicts_def)

lemma for_each_items_isl: "(\<not> isl (for_each compat_item v)) = list_of_dicts v is_dict"
  by (rule for_each_isl) (simp_all add: compat_item_isl[symmetric])

lemma compat_section_isl: "(\<not> isl (compat_section sec)) = section_ok sec"
proof (cases sec)
  case (JObj d)
  show ?thesis
  proof (cases "map_of d (u ''items'')")
    case None
    with JObj show ?thesis by (simp add: compat_section_def section_ok_def)
  next
    case (Some v)
    with JObj show ?thesis
      using for_each_items_isl[of v] by (simp add: compat_section_def section_ok_def)
  qed
qed (simp_all add: compat_section_def section_ok_def)

lemma compat_section_not_dict: "\<not> is_dict x \<Longrightarrow> isl (compat_section x)"
  by (cases x) (simp_all add: compat_section_def)

lemma for_each_sections_isl:
  "(\<not> isl (for_each compat_section v)) = list_of_dicts v section_ok"
  by (rule for_each_isl) (simp_all add: compat_section_not_dict compat_section_isl)

lemma map_of_dict_set: "map_of (dict_set k v d) = (map_of d)(k \<mapsto> v)"
  by (induction d) (auto simp: fun_eq_iff)

lemma getitem_array_item:
  "getitem (array_item d) (u ''type'') = Inr (array_type d)"
  "getitem (array_item d) (u ''text'') = Inr (array_text d)"
  by (simp_all add: getitem_def array_item_def u_def)

lemma promote_heading_array:
  "promote_heading (map array_item ds) =
     (case ds of
        [] \<Rightarrow> Inr (one_section (JStr []) [])
      | d # rest \<Rightarrow>
          if hashable (array_type d) then
            Inr (if array_type d \<in> {JStr (u ''h1''), JStr (u ''h2''), JStr (u ''h3'')}
                 then one_section (array_text d) (map array_item rest)
                 else one_section (JStr []) (map array_item (d # rest)))
          else Inl TypeError)"
  by (cases ds) (auto simp: promote_heading_def getitem_array_item in_str_set_def)


lemma coerce_array_eq:
  "coerce_to_sections_schema (JArr xs) = promote_heading (map array_item (dicts_of xs))"
  by (simp add: coerce_to_sections_schema_def array_items_eq)

text \<open>
  Claim C2, as the spec states it, fails: the membership test of the first built item's
  type in the set of heading tags hashes the type, and a type that is a non-empty array
  (or object) cannot be hashed, so the array \<open>[{"type": [1]}]\<close> raises \<open>TypeError\<close>.
\<close>

theorem coerce_array_counterexample:
  "coerce_to_sections_schema (JArr [JObj [(u ''type'', JArr [JInt 1])]]) = Inl TypeError"
  by code_simp

text \<open>
  Claim C2, amended. For every array whose first mapping element builds a hashable
  type (any type but a non-empty array or object), the result is exactly one section of
  type \<open>h2\<close>: the items are built from the mapping elements in order, text as \<open>text\<close>,
  else \<open>content\<close>, else the empty string, and type as the supplied type, else \<open>p\<close>; when
  the first built item has type \<open>h1\<close>, \<open>h2\<close> or \<open>h3\<close> its text becomes the heading and the
  item is removed, otherwise the heading is empty. The array
  \<open>[{"type":"h2","text":"Title"},{"text":"body"}]\<close> gives the heading \<open>Title\<close> and one item
  of type \<open>p\<close> and text \<open>body\<close>.
\<close>

theorem coerce_array:
  assumes "case dicts_of xs of
             [] \<Rightarrow> True
           | d # ds \<Rightarrow> hashable (py_or (dict_get d (u ''type'') JNull) (JStr (u ''p'')))"
  shows "(let ty = (\<lambda>d. py_or (dict_get d (u ''type'') JNull) (JStr (u ''p'')));
              tx = (\<lambda>d. py_or (py_or (dict_get d (u ''text'') JNull)
                                    (dict_get d (u ''content'') JNull)) (JStr []));
              item = (\<lambda>d. JObj [(u ''type'', ty d), (u ''text'', tx d)]);
              promoted = (case dicts_of xs of
                            [] \<Rightarrow> False
                          | d # ds \<Rightarrow>
                              ty d \<in> {JStr (u ''h1''), JStr (u ''h2''), JStr (u ''h3'')})
          in coerce_to_sections_schema (JArr xs) =
               Inr (JObj [(u ''sections'',
                      JArr [JObj [(u ''heading'',
                                   if promoted then tx (hd (dicts_of xs)) else JStr []),
                                  (u ''type'', JStr (u ''h2'')),
                                  (u ''items'',
                                   JArr (if promoted then map item (tl (dicts_of xs))
                                         else map item (dicts_of xs)))]])]))
     \<and> dicts_of [] = []
     \<and> (\<forall>d rest. dicts_of (JObj d # rest) = d # dicts_of rest)
     \<and> (\<forall>v rest. \<not> is_dict v \<longrightarrow> dicts_of (v # rest) = dicts_of rest)
     \<and> coerce_to_sections_schema
           (JArr [JObj [(u ''type'', JStr (u ''h2'')), (u ''text'', JStr (u ''Title''))],
                  JObj [(u ''text'', JStr (u ''body''))]]) =
           Inr (JObj [(u ''sections'',
                  JArr [JObj [(u ''heading'', JStr (u ''Title'')),
                              (u ''type'', JStr (u ''h2'')),
                              (u ''items'',
                               JArr [JObj [(u ''type'', JStr (u ''p'')),
                                           (u ''text'', JStr (u ''body''))]])]])])"
proof -
  have a: "(let ty = (\<lambda>d. py_or (dict_get d (u ''type'') JNull) (JStr (u ''p'')));
              tx = (\<lambda>d. py_or (py_or (dict_get d (u ''text'') JNull)
                                    (dict_get d (u ''content'') JNull)) (JStr []));
              item = (\<lambda>d. JObj [(u ''type'', ty d), (u ''text'', tx d)]);
              promoted = (case dicts_of xs of
                            [] \<Rightarrow> False
                          | d # ds \<Rightarrow>
                              ty d \<in> {JStr (u ''h1''), JStr (u ''h2''), JStr (u ''h3'')})
          in coerce_to_sections_schema (JArr xs) =
               Inr (JObj [(u ''sections'',
                      JArr [JObj [(u ''heading'',
                                   if promoted then tx (hd (dicts_of xs)) else JStr []),
                                  (u ''type'', JStr (u ''h2'')),
                                  (u ''items'',
                                   JArr (if promoted then map item (tl (dicts_of xs))
                                         else map item (dicts_of xs)))]])]))"
  proof (cases "dicts_of xs")
    case Nil
    then show ?thesis
      unfolding coerce_array_eq promote_heading_array
      by (simp add: one_section_def)
  next
    case (Cons d ds)
    with assms have h: "hashable (array_type d)" by (simp add: array_type_def)
    have i: "array_item = (\<lambda>d. JObj [(u ''type'', py_or (dict_get d (u ''type'') JNull) (JStr (u ''p''))),
        (u ''text'', py_or (py_or (dict_get d (u ''text'') JNull)
                                    (dict_get d (u ''content'') JNull)) (JStr []))])"
      by (simp add: fun_eq_iff array_item_def array_type_def array_text_def)
    show ?thesis
      unfolding coerce_array_eq promote_heading_array Cons
      using h
      by (simp add: one_section_def Let_def i[symmetric])
         (simp add: array_type_def array_text_def)
  qed
  have b: "\<forall>v rest. \<not> is_dict v \<longrightarrow> dicts_of (v # rest) = dicts_of rest"
  proof (intro allI impI)
    fix v rest assume "\<not> is_dict v"
    then show "dicts_of (v # rest) = dicts_of rest" by (cases v) simp_all
  qed
  have c: "coerce_to_sections_schema
           (JArr [JObj [(u ''type'', JStr (u ''h2'')), (u ''text'', JStr (u ''Title''))],
                  JObj [(u ''text'', JStr (u ''body''))]]) =
           Inr (JObj [(u ''sections'',
                  JArr [JObj [(u ''heading'', JStr (u ''Title'')),
                              (u ''type'', JStr (u ''h2'')),
                              (u ''items'',
                               JArr [JObj [(u ''type'', JStr (u ''p'')),
                                           (u ''text'', JStr (u ''body''))]])]])])"
    by code_simp
  from a b c show ?thesis by simp
qed

theorem coerce_array_witness:
  "coerce_to_sections_schema
        (JArr [JInt 3, JObj [(u ''type'', JStr (u ''h1'')), (u ''content'', JInt 7)],
               JObj [(u ''type'', JStr (u ''li''))]]) =
      Inr (JObj [(u ''sections'',
             JArr [JObj [(u ''heading'', JInt 7),
                         (u ''type'', JStr (u ''h2'')),
                         (u ''items'',
                          JArr [JObj [(u ''type'', JStr (u ''li'')), (u ''text'', JStr [])]])]])])
   \<and> coerce_to_sections_schema
        (JArr [JObj [(u ''type'', JStr (u ''li'')), (u ''text'', JStr (u ''a''))], JNull,
               JObj [(u ''type'', JStr (u ''h2'')), (u ''text'', JStr (u ''b''))]]) =
      Inr (JObj [(u ''sections'',
             JArr [JObj [(u ''heading'', JStr []),
                         (u ''type'', JStr (u ''h2'')),
                         (u ''items'',
                          JArr [JObj [(u ''type'', JStr (u ''li'')), (u ''text'', JStr (u ''a''))],
                                JObj [(u ''type'', JStr (u ''h2'')), (u ''text'', JStr (u ''b''))]])]])])"
proof -
  let ?xs = "[JInt 3, JObj [(u ''type'', JStr (u ''h1'')), (u ''content'', JInt 7)],
              JObj [(u ''type'', JStr (u ''li''))]]"
  let ?ys = "[JObj [(u ''type'', JStr (u ''li'')), (u ''text'', JStr (u ''a''))], JNull,
               JObj [(u ''type'', JStr (u ''h2'')), (u ''text'', JStr (u ''b''))]]"
  have hx: "case dicts_of ?xs of
             [] \<Rightarrow> True
           | d # ds \<Rightarrow> hashable (py_or (dict_get d (u ''type'') JNull) (JStr (u ''p'')))"
    by (simp add: py_or_def dict_get_def u_def)
  have hy: "case dicts_of ?ys of
             [] \<Rightarrow> True
           | d # ds \<Rightarrow> hashable (py_or (dict_get d (u ''type'') JNull) (JStr (u ''p'')))"
    by (simp add: py_or_def dict_get_def u_def)
  have dx: "dicts_of ?xs = [[(u ''type'', JStr (u ''h1'')), (u ''content'', JInt 7)],
              [(u ''type'', JStr (u ''li''))]]"
    by simp
  have dy: "dicts_of ?ys = [[(u ''type'', JStr (u ''li'')), (u ''text'', JStr (u ''a''))],
               [(u ''type'', JStr (u ''h2'')), (u ''text'', JStr (u ''b''))]]"
    by simp
  from coerce_array[OF hx, THEN conjunct1]
  have x: "coerce_to_sections_schema (JArr ?xs) =
      Inr (JObj [(u ''sections'',
             JArr [JObj [(u ''heading'', JInt 7),
                         (u ''type'', JStr (u ''h2'')),
                         (u ''items'',
                          JArr [JObj [(u ''type'', JStr (u ''li'')), (u ''text'', JStr [])]])]])])"
    unfolding dx by (simp add: Let_def py_or_def dict_get_def u_def)
  from coerce_array[OF hy, THEN conjunct1]
  have y: "coerce_to_sections_schema (JArr ?ys) =
      Inr (JObj [(u ''sections'',
             JArr [JObj [(u ''heading'', JStr []),
                         (u ''type'', JStr (u ''h2'')),
                         (u ''items'',
                          JArr [JObj [(u ''type'', JStr (u ''li'')), (u ''text'', JStr (u ''a''))],
                                JObj [(u ''type'', JStr (u ''h2'')), (u ''text'', JStr (u ''b''))]])]])])"
    unfolding dy by (simp add: Let_def py_or_def dict_get_def u_def)
  from x y show ?thesis by (intro conjI)
qed

lemma dicts_of_append: "dicts_of (xs @ ys) = dicts_of xs @ dicts_of ys"
  by (induction xs rule: dicts_of.induct) simp_all

lemma coerce_array_built:
  assumes "case dicts_of xs of [] \<Rightarrow> True | d # ds \<Rightarrow> hashable (array_type d)"
  shows "coerce_to_sections_schema (JArr xs) =
     Inr (JObj [(u ''sections'',
            JArr [JObj [(u ''heading'',
                         case dicts_of xs of
                           [] \<Rightarrow> JStr []
                         | d # ds \<Rightarrow>
                             if array_type d \<in> {JStr (u ''h1''), JStr (u ''h2''), JStr (u ''h3'')}
                             then array_text d else JStr []),
                        (u ''type'', JStr (u ''h2'')),
                        (u ''items'',
                         JArr (case dicts_of xs of
                                 [] \<Rightarrow> []
                               | d # ds \<Rightarrow>
                                   if array_type d \<in>
                                        {JStr (u ''h1''), JStr (u ''h2''), JStr (u ''h3'')}
                                   then map array_item ds
                                   else map array_item (d # ds)))]])])"
  using assms unfolding coerce_array_eq promote_heading_array
  by (cases "dicts_of xs") (simp_all add: one_section_def)

text \<open>
  Claim C10. In the array branch the fallbacks are triggered by falsiness, and the
  normalizer's result shows it. A mapping element whose \<open>text\<close> is present but the empty
  string or null, and whose \<open>content\<close> is a non-empty string, builds the item with the
  content as its text: at its place among the items when an earlier mapping element
  stands before it, and as the first item, or as the heading when its type is a heading
  tag, when it is the first mapping element. A mapping element whose \<open>type\<close> is present
  but the empty string or null builds an item of type \<open>p\<close>, whatever its text is, and is
  never promoted to the heading.
\<close>

theorem array_falsy_fallback:
  "(let ty = (\<lambda>d. py_or (dict_get d (u ''type'') JNull) (JStr (u ''p'')));
        tx = (\<lambda>d. py_or (py_or (dict_get d (u ''text'') JNull)
                              (dict_get d (u ''content'') JNull)) (JStr []));
        item = (\<lambda>d. JObj [(u ''type'', ty d), (u ''text'', tx d)]);
        doc = (\<lambda>heading items.
                 JObj [(u ''sections'',
                        JArr [JObj [(u ''heading'', heading), (u ''type'', JStr (u ''h2'')),
                                    (u ''items'', JArr items)]])]);
        ds = dicts_of pre;
        first_ok = (case ds of [] \<Rightarrow> True | d0 # r \<Rightarrow> hashable (ty d0));
        promoted = (case ds of
                      [] \<Rightarrow> False
                    | d0 # r \<Rightarrow> ty d0 \<in> {JStr (u ''h1''), JStr (u ''h2''), JStr (u ''h3'')})
    in (map_of d (u ''text'') = Some t \<and> (t = JStr [] \<or> t = JNull)
          \<and> map_of d (u ''content'') = Some (JStr c) \<and> c \<noteq> [] \<and> ds \<noteq> [] \<and> first_ok
        \<longrightarrow> coerce_to_sections_schema (JArr (pre @ JObj d # post)) =
              Inr (doc (if promoted then tx (hd ds) else JStr [])
                     ((if promoted then map item (tl ds) else map item ds)
                      @ JObj [(u ''type'', ty d), (u ''text'', JStr c)]
                      # map item (dicts_of post))))
     \<and> (map_of d (u ''text'') = Some t \<and> (t = JStr [] \<or> t = JNull)
          \<and> map_of d (u ''content'') = Some (JStr c) \<and> c \<noteq> [] \<and> ds = []
          \<and> hashable (ty d)
        \<longrightarrow> coerce_to_sections_schema (JArr (pre @ JObj d # post)) =
              Inr (if ty d \<in> {JStr (u ''h1''), JStr (u ''h2''), JStr (u ''h3'')}
                   then doc (JStr c) (map item (dicts_of post))
                   else doc (JStr [])
                          (JObj [(u ''type'', ty d), (u ''text'', JStr c)]
                           # map item (dicts_of post))))
     \<and> (map_of d (u ''type'') = Some y \<and> (y = JStr [] \<or> y = JNull) \<and> first_ok
        \<longrightarrow> coerce_to_sections_schema (JArr (pre @ JObj d # post)) =
              Inr (doc (if promoted then tx (hd ds) else JStr [])
                     ((if promoted then map item (tl ds) else map item ds)
                      @ JObj [(u ''type'', JStr (u ''p'')), (u ''text'', tx d)]
                      # map item (dicts_of post)))))"
proof -
  let ?H = "{JStr (u ''h1''), JStr (u ''h2''), JStr (u ''h3'')}"
  let ?xs = "pre @ JObj d # post"
  have dx: "dicts_of ?xs = dicts_of pre @ d # dicts_of post"
    by (simp add: dicts_of_append)
  have tx: "array_text d = JStr c"
    if "map_of d (u ''text'') = Some t" "t = JStr [] \<or> t = JNull"
       "map_of d (u ''content'') = Some (JStr c)" "c \<noteq> []"
    using that by (auto simp: array_text_def dict_get_def py_or_def)
  have ty: "array_type d = JStr (u ''p'')"
    if "map_of d (u ''type'') = Some y" "y = JStr [] \<or> y = JNull"
    using that by (auto simp: array_type_def dict_get_def py_or_def)
  have p: "JStr (u ''p'') \<notin> ?H" by (simp add: u_def)
  have 1: "coerce_to_sections_schema (JArr ?xs) =
        Inr (JObj [(u ''sections'',
              JArr [JObj [(u ''heading'',
                  if array_type (hd (dicts_of pre)) \<in> ?H then array_text (hd (dicts_of pre))
                  else JStr []),
                (u ''type'', JStr (u ''h2'')),
                (u ''items'', JArr ((if array_type (hd (dicts_of pre)) \<in> ?H
                     then map array_item (tl (dicts_of pre)) else map array_item (dicts_of pre))
                    @ JObj [(u ''type'', array_type d), (u ''text'', JStr c)]
                    # map array_item (dicts_of post)))]])])"
    if h: "map_of d (u ''text'') = Some t" "t = JStr [] \<or> t = JNull"
       "map_of d (u ''content'') = Some (JStr c)" "c \<noteq> []"
      and ne: "dicts_of pre \<noteq> []"
      and ok: "case dicts_of pre of [] \<Rightarrow> True | d0 # r \<Rightarrow> hashable (array_type d0)"
  proof -
    from ne obtain d0 r where d0: "dicts_of pre = d0 # r" by (cases "dicts_of pre") auto
    with ok have "case dicts_of ?xs of [] \<Rightarrow> True | d # ds \<Rightarrow> hashable (array_type d)"
      by (simp add: dx)
    from coerce_array_built[OF this] show ?thesis
      by (simp add: dx d0 array_item_def tx[OF h])
  qed
  have 2: "coerce_to_sections_schema (JArr ?xs) =
        Inr (if array_type d \<in> ?H
             then JObj [(u ''sections'',
                    JArr [JObj [(u ''heading'', JStr c), (u ''type'', JStr (u ''h2'')),
                                (u ''items'', JArr (map array_item (dicts_of post)))]])]
             else JObj [(u ''sections'',
                    JArr [JObj [(u ''heading'', JStr []), (u ''type'', JStr (u ''h2'')),
                                (u ''items'',
                                 JArr (JObj [(u ''type'', array_type d), (u ''text'', JStr c)]
                                       # map array_item (dicts_of post)))]])])"
    if h: "map_of d (u ''text'') = Some t" "t = JStr [] \<or> t = JNull"
       "map_of d (u ''content'') = Some (JStr c)" "c \<noteq> []"
      and e: "dicts_of pre = []" and ok: "hashable (array_type d)"
  proof -
    from ok e have "case dicts_of ?xs of [] \<Rightarrow> True | d # ds \<Rightarrow> hashable (array_type d)"
      by (simp add: dx)
    from coerce_array_built[OF this] show ?thesis
      by (simp add: dx e array_item_def tx[OF h])
  qed
  have 3: "coerce_to_sections_schema (JArr ?xs) =
        Inr (JObj [(u ''sections'',
              JArr [JObj [(u ''heading'',
                  if (case dicts_of pre of [] \<Rightarrow> False | d0 # r \<Rightarrow> array_type d0 \<in> ?H)
                  then array_text (hd (dicts_of pre)) else JStr []),
                (u ''type'', JStr (u ''h2'')),
                (u ''items'', JArr ((if (case dicts_of pre of [] \<Rightarrow> False
                                          | d0 # r \<Rightarrow> array_type d0 \<in> ?H)
                     then map array_item (tl (dicts_of pre)) else map array_item (dicts_of pre))
                    @ JObj [(u ''type'', JStr (u ''p'')), (u ''text'', array_text d)]
                    # map array_item (dicts_of post)))]])])"
    if h: "map_of d (u ''type'') = Some y" "y = JStr [] \<or> y = JNull"
      and ok: "case dicts_of pre of [] \<Rightarrow> True | d0 # r \<Rightarrow> hashable (array_type d0)"
  proof (cases "dicts_of pre")
    case Nil
    then have "case dicts_of ?xs of [] \<Rightarrow> True | d # ds \<Rightarrow> hashable (array_type d)"
      by (simp add: dx ty[OF h])
    from coerce_array_built[OF this] p show ?thesis
      by (simp add: dx Nil array_item_def ty[OF h])
  next
    case (Cons d0 r)
    with ok have "case dicts_of ?xs of [] \<Rightarrow> True | d # ds \<Rightarrow> hashable (array_type d)"
      by (simp add: dx)
    from coerce_array_built[OF this] show ?thesis
      by (simp add: dx Cons array_item_def ty[OF h])
  qed
  have f: "(\<lambda>d. py_or (dict_get d (u ''type'') JNull) (JStr (u ''p''))) = array_type"
    "(\<lambda>d. py_or (py_or (dict_get d (u ''text'') JNull)
                              (dict_get d (u ''content'') JNull)) (JStr [])) = array_text"
    by (simp_all add: fun_eq_iff array_type_def array_text_def)
  have i: "(\<lambda>d. JObj [(u ''type'', array_type d), (u ''text'', array_text d)]) = array_item"
    by (simp add: fun_eq_iff array_item_def)
  have g: "(case ds of [] \<Rightarrow> False | d0 # r \<Rightarrow> array_type d0 \<in> ?H) = (array_type (hd ds) \<in> ?H)"
    if "ds \<noteq> []" for ds
    using that by (cases ds) simp_all
  show ?thesis
    unfolding Let_def f i
    using 1 2 3 g[of "dicts_of pre"]
    by auto
qed

theorem array_falsy_fallback_witness:
  "coerce_to_sections_schema
     (JArr [JObj [(u ''text'', JStr (u ''t0''))],
            JObj [(u ''text'', JStr []), (u ''content'', JStr (u ''x''))], JInt 1]) =
   Inr (JObj [(u ''sections'',
          JArr [JObj [(u ''heading'', JStr []), (u ''type'', JStr (u ''h2'')),
                      (u ''items'',
                       JArr [JObj [(u ''type'', JStr (u ''p'')), (u ''text'', JStr (u ''t0''))],
                             JObj [(u ''type'', JStr (u ''p'')), (u ''text'', JStr (u ''x''))]])]])])
   \<and> coerce_to_sections_schema
     (JArr [JNull, JObj [(u ''type'', JStr (u ''h1'')), (u ''text'', JNull),
                         (u ''content'', JStr (u ''x''))]]) =
   Inr (JObj [(u ''sections'',
          JArr [JObj [(u ''heading'', JStr (u ''x'')), (u ''type'', JStr (u ''h2'')),
                      (u ''items'', JArr [])]])])
   \<and> coerce_to_sections_schema
     (JArr [JObj [(u ''text'', JStr (u ''keep'')), (u ''type'', JStr [])]]) =
   Inr (JObj [(u ''sections'',
          JArr [JObj [(u ''heading'', JStr []), (u ''type'', JStr (u ''h2'')),
                      (u ''items'',
                       JArr [JObj [(u ''type'', JStr (u ''p'')),
                                   (u ''text'', JStr (u ''keep''))]])]])])"
proof -
  let ?d1 = "[(u ''text'', JStr []), (u ''content'', JStr (u ''x''))]"
  let ?d2 = "[(u ''type'', JStr (u ''h1'')), (u ''text'', JNull), (u ''content'', JStr (u ''x''))]"
  let ?d3 = "[(u ''text'', JStr (u ''keep'')), (u ''type'', JStr [])]"
  note t1 = array_falsy_fallback[of "[JObj [(u ''text'', JStr (u ''t0''))]]" ?d1 "JStr []"
      "u ''x''" "[JInt 1]" JNull, unfolded Let_def, THEN conjunct1]
  note t2 = array_falsy_fallback[of "[JNull]" ?d2 JNull "u ''x''" "[]" JNull,
      unfolded Let_def, THEN conjunct2, THEN conjunct1]
  note t3 = array_falsy_fallback[of "[]" ?d3 JNull "[]" "[]" "JStr []",
      unfolded Let_def, THEN conjunct2, THEN conjunct2]
  have a: "coerce_to_sections_schema
     (JArr ([JObj [(u ''text'', JStr (u ''t0''))]] @ JObj ?d1 # [JInt 1])) =
   Inr (JObj [(u ''sections'',
          JArr [JObj [(u ''heading'', JStr []), (u ''type'', JStr (u ''h2'')),
                      (u ''items'',
                       JArr [JObj [(u ''type'', JStr (u ''p'')), (u ''text'', JStr (u ''t0''))],
                             JObj [(u ''type'', JStr (u ''p'')), (u ''text'', JStr (u ''x''))]])]])])"
    using t1 by (simp add: py_or_def dict_get_def u_def)
  have b: "coerce_to_sections_schema (JArr ([JNull] @ JObj ?d2 # [])) =
   Inr (JObj [(u ''sections'',
          JArr [JObj [(u ''heading'', JStr (u ''x'')), (u ''type'', JStr (u ''h2'')),
                      (u ''items'', JArr [])]])])"
    using t2 by (simp add: py_or_def dict_get_def u_def)
  have c: "coerce_to_sections_schema (JArr ([] @ JObj ?d3 # [])) =
   Inr (JObj [(u ''sections'',
          JArr [JObj [(u ''heading'', JStr []), (u ''type'', JStr (u ''h2'')),
                      (u ''items'',
                       JArr [JObj [(u ''type'', JStr (u ''p'')),
                                   (u ''text'', JStr (u ''keep''))]])]])])"
    using t3 by (simp add: py_or_def dict_get_def u_def)
  from a b c show ?thesis by simp
qed

lemma map_err_Inl: "map_err f xs = Inl e \<Longrightarrow> \<exists>x. f x = Inl e"
proof (induction xs)
  case Nil
  then show ?case by simp
next
  case (Cons x xs)
  show ?case
  proof (cases "f x")
    case (Inl e')
    with Cons.prems show ?thesis by auto
  next
    case (Inr y)
    with Cons.prems have "map_err f xs = Inl e" by (simp split: sum.splits)
    with Cons.IH show ?thesis by blast
  qed
qed

lemma compat_item_Inl: "compat_item it = Inl e \<Longrightarrow> e = AttributeError"
  by (cases it) (simp_all add: compat_item_def split: if_splits)

lemma for_each_Inl:
  assumes "for_each body v = Inl e"
  shows "e = TypeError \<or> (\<exists>x. body x = Inl e)"
proof (cases v)
  case (JArr xs)
  with assms have "map_err body xs = Inl e"
    by (simp add: for_each_def split: sum.splits)
  from map_err_Inl[OF this] show ?thesis by blast
next
  case (JStr t)
  with assms have "map_err body (map (\<lambda>c. JStr [c]) t) = Inl e"
    by (simp add: for_each_def split: sum.splits)
  from map_err_Inl[OF this] show ?thesis by blast
next
  case (JObj d)
  with assms have "map_err body (map (\<lambda>kv. JStr (fst kv)) d) = Inl e"
    by (simp add: for_each_def split: sum.splits)
  from map_err_Inl[OF this] show ?thesis by blast
qed (use assms in \<open>simp_all add: for_each_def\<close>)

lemma compat_section_Inl:
  assumes "compat_section sec = Inl e"
  shows "e = TypeError \<or> e = AttributeError"
proof (cases sec)
  case (JObj d)
  with assms obtain v where "for_each compat_item v = Inl e"
    by (auto simp: compat_section_def split: option.splits sum.splits)
  from for_each_Inl[OF this] compat_item_Inl show ?thesis by blast
qed (use assms in \<open>simp_all add: compat_section_def\<close>)

lemma coerce_Inl:
  assumes "coerce_to_sections_schema data = Inl e"
  shows "e = TypeError \<or> (\<not> is_list data \<and> e = AttributeError)"
proof (cases data)
  case (JArr xs)
  from assms show ?thesis
    unfolding JArr coerce_array_eq promote_heading_array
    by (cases "dicts_of xs") (auto split: if_splits)
next
  case (JObj d)
  with assms obtain v where "for_each compat_section v = Inl e"
    by (auto simp: coerce_to_sections_schema_def split: option.splits sum.splits)
  from for_each_Inl[OF this] compat_section_Inl JObj show ?thesis by auto
qed (use assms in \<open>simp_all add: coerce_to_sections_schema_def\<close>)

text \<open>
  Claim C1, as the spec states it, fails: the branch for an object with a \<open>sections\<close> key
  iterates over the value of \<open>sections\<close> and calls \<open>get\<close> on its elements with no check, so
  \<open>{"sections": 5}\<close> raises \<open>TypeError\<close>.
\<close>

theorem coerce_total_counterexample:
  "coerce_to_sections_schema (JObj [(u ''sections'', JInt 5)]) = Inl TypeError"
  by code_simp

text \<open>
  Claim C1, amended. The normalizer returns exactly on the values \<open>coercible\<close> describes:
  every value that is neither an array nor an object with a \<open>sections\<close> key; every array
  whose first mapping element builds a hashable type; and every object whose \<open>sections\<close>
  value is an array of objects, each with no \<open>items\<close> or with an array of objects as
  \<open>items\<close> (an empty string or empty object in the place of either array passes too, as
  iterating over it does nothing). Whenever it returns, the result is an object with a
  \<open>sections\<close> key, and on a value that is neither an array nor an object with a \<open>sections\<close>
  key the result is the document with no sections. On every other value it raises: an
  array raises \<open>TypeError\<close>, an object \<open>TypeError\<close> or \<open>AttributeError\<close>.
\<close>

theorem coerce_returns_iff_coercible:
  "(\<not> isl (coerce_to_sections_schema data)) = coercible data
   \<and> (coercible data \<longrightarrow>
        (\<exists>d. coerce_to_sections_schema data = Inr (JObj d) \<and> map_of d (u ''sections'') \<noteq> None))
   \<and> (\<not> is_list data \<and> \<not> has_key data (u ''sections'') \<longrightarrow>
        coerce_to_sections_schema data = Inr (JObj [(u ''sections'', JArr [])]))
   \<and> (\<not> coercible data \<longrightarrow>
        coerce_to_sections_schema data = Inl TypeError \<or>
        (\<not> is_list data \<and> coerce_to_sections_schema data = Inl AttributeError))"
proof -
  have a: "(\<not> isl (coerce_to_sections_schema data)) = coercible data"
  proof (cases data)
    case (JArr xs)
    show ?thesis
      unfolding JArr coerce_array_eq promote_heading_array
      by (cases "dicts_of xs") (simp_all add: coercible_def first_type_hashable_def)
  next
    case (JObj d)
    show ?thesis
    proof (cases "map_of d (u ''sections'')")
      case None
      with JObj show ?thesis by (simp add: coerce_to_sections_schema_def coercible_def)
    next
      case (Some v)
      with JObj show ?thesis
        using for_each_sections_isl[of v]
        by (simp add: coerce_to_sections_schema_def coercible_def)
    qed
  qed (simp_all add: coerce_to_sections_schema_def coercible_def)
  have b: "\<exists>d. coerce_to_sections_schema data = Inr (JObj d) \<and> map_of d (u ''sections'') \<noteq> None"
    if "coercible data"
  proof -
    from that a have r: "\<not> isl (coerce_to_sections_schema data)" by simp
    show ?thesis
    proof (cases data)
      case (JArr xs)
      with r show ?thesis
        unfolding JArr coerce_array_eq promote_heading_array
        by (cases "dicts_of xs") (auto simp: one_section_def split: if_splits)
    next
      case (JObj d)
      show ?thesis
      proof (cases "map_of d (u ''sections'')")
        case None
        with JObj show ?thesis by (simp add: coerce_to_sections_schema_def empty_document_def)
      next
        case (Some v)
        with JObj r obtain v' where "for_each compat_section v = Inr v'"
          by (cases "for_each compat_section v") (simp_all add: coerce_to_sections_schema_def)
        with JObj Some show ?thesis
          by (simp add: coerce_to_sections_schema_def map_of_dict_set)
      qed
    qed (simp_all add: coerce_to_sections_schema_def empty_document_def)
  qed
  have c: "coerce_to_sections_schema data = Inr (JObj [(u ''sections'', JArr [])])"
    if "\<not> is_list data \<and> \<not> has_key data (u ''sections'')"
    using that
    by (cases data)
       (auto simp: coerce_to_sections_schema_def has_key_def empty_document_def
             split: option.splits)
  have d: "coerce_to_sections_schema data = Inl TypeError \<or>
        (\<not> is_list data \<and> coerce_to_sections_schema data = Inl AttributeError)"
    if "\<not> coercible data"
  proof -
    from that a obtain e where e: "coerce_to_sections_schema data = Inl e"
      by (cases "coerce_to_sections_schema data") auto
    from coerce_Inl[OF e] e show ?thesis by auto
  qed
  from a b c d show ?thesis by blast
qed

theorem coerce_returns_iff_coercible_witness:
  "coercible (JObj [(u ''sections'', JArr [JObj [(u ''items'', JArr [JObj [(u ''content'', JStr (u ''x''))]])]])])
   \<and> \<not> isl (coerce_to_sections_schema
        (JObj [(u ''sections'', JArr [JObj [(u ''items'', JArr [JObj [(u ''content'', JStr (u ''x''))]])]])]))
   \<and> coerce_to_sections_schema
        (JObj [(u ''sections'', JArr [JObj [(u ''items'', JArr [JObj [(u ''content'', JStr (u ''x''))]])]])]) =
      Inr (JObj [(u ''sections'',
                  JArr [JObj [(u ''items'',
                    JArr [JObj [(u ''content'', JStr (u ''x'')), (u ''text'', JStr (u ''x''))]])]])])
   \<and> coerce_to_sections_schema (JStr (u ''sections'')) = Inr (JObj [(u ''sections'', JArr [])])
   \<and> \<not> coercible (JObj [(u ''sections'', JArr [JStr (u ''x'')])])
   \<and> coerce_to_sections_schema (JObj [(u ''sections'', JArr [JStr (u ''x'')])])
       = Inl AttributeError
   \<and> \<not> coercible (JObj [(u ''sections'', JArr [JObj [(u ''items'', JNull)]])])
   \<and> coerce_to_sections_schema (JObj [(u ''sections'', JArr [JObj [(u ''items'', JNull)]])])
       = Inl TypeError"
proof -
  let ?x = "JObj [(u ''sections'', JArr [JObj [(u ''items'', JArr [JObj [(u ''content'', JStr (u ''x''))]])]])]"
  have h: "coercible ?x" by code_simp
  from coerce_returns_iff_coercible[of ?x] h
  have r: "\<not> isl (coerce_to_sections_schema ?x)" by blast
  have v: "coerce_to_sections_schema ?x =
      Inr (JObj [(u ''sections'',
                  JArr [JObj [(u ''items'',
                    JArr [JObj [(u ''content'', JStr (u ''x'')), (u ''text'', JStr (u ''x''))]])]])])"
    by code_simp
  have n: "\<not> is_list (JStr (u ''sections'')) \<and> \<not> has_key (JStr (u ''sections'')) (u ''sections'')"
    by (simp add: has_key_def)
  from coerce_returns_iff_coercible[of "JStr (u ''sections'')"] n
  have e: "coerce_to_sections_schema (JStr (u ''sections'')) = Inr (JObj [(u ''sections'', JArr [])])"
    by blast
  let ?y = "JObj [(u ''sections'', JArr [JStr (u ''x'')])]"
  let ?z = "JObj [(u ''sections'', JArr [JObj [(u ''items'', JNull)]])]"
  have ny: "\<not> coercible ?y" and nz: "\<not> coercible ?z" by code_simp+
  from coerce_returns_iff_coercible[of ?y] ny
  have "coerce_to_sections_schema ?y = Inl TypeError \<or>
        (\<not> is_list ?y \<and> coerce_to_sections_schema ?y = Inl AttributeError)"
    by blast
  moreover have "coerce_to_sections_schema ?y \<noteq> Inl TypeError" by code_simp
  ultimately have ey: "coerce_to_sections_schema ?y = Inl AttributeError" by blast
  from coerce_returns_iff_coercible[of ?z] nz
  have "coerce_to_sections_schema ?z = Inl TypeError \<or>
        (\<not> is_list ?z \<and> coerce_to_sections_schema ?z = Inl AttributeError)"
    by blast
  moreover have "coerce_to_sections_schema ?z \<noteq> Inl AttributeError" by code_simp
  ultimately have ez: "coerce_to_sections_schema ?z = Inl TypeError" by blast
  from h r v e ny ey nz ez show ?thesis by (intro conjI)
qed

section \<open>Properties of the renderer\<close>

lemma group_blocks_run:
  assumes "rest = [] \<or> \<not> fst (hd rest)"
  shows "group_blocks (map (Pair True) bs @ rest) =
           (if bs = [] then [] else [u ''<ul>''] @ bs @ [u ''</ul>'']) @ group_blocks rest"
proof (cases bs)
  case Nil
  then show ?thesis by simp
next
  case (Cons b bs')
  from assms have t: "takeWhile fst rest = []" and d: "dropWhile fst rest = rest"
    by (cases rest; auto)+
  have "takeWhile fst (map (Pair True) bs' @ rest) = map (Pair True) bs' @ takeWhile fst rest"
    by (rule takeWhile_append2) auto
  moreover have "dropWhile fst (map (Pair True) bs' @ rest) = dropWhile fst rest"
    by (rule dropWhile_append2) auto
  moreover have "map snd (map (Pair True) bs') = bs'"
    by (simp add: comp_def)
  ultimately show ?thesis using Cons t d by simp
qed

lemma flush_group:
  "flush (html, buf) = (html @ group_blocks (map (Pair True) buf), [])"
  using group_blocks_run[of "[]" buf] by (simp add: flush_def)

lemma render_items_flush:
  assumes "list_all2 (\<lambda>item blk. item_block item = Inr blk) items blks"
  shows "\<exists>st. render_items items (html, buf) = Inr st \<and>
              flush st = (html @ group_blocks (map (Pair True) buf @ blks), [])"
  using assms
proof (induction items blks arbitrary: html buf rule: list_all2_induct)
  case Nil
  show ?case by (simp add: flush_group)
next
  case (Cons item items blk blks)
  obtain is_li b where blk: "blk = (is_li, b)" by (cases blk)
  show ?case
  proof (cases is_li)
    case True
    with Cons.hyps(1) blk have "render_item item (html, buf) = Inr (html, buf @ [b])"
      by (simp add: render_item_def)
    with Cons.IH[of html "buf @ [b]"] True blk show ?thesis by simp
  next
    case False
    let ?html = "html @ group_blocks (map (Pair True) buf)"
    from Cons.hyps(1) blk False
    have "render_item item (html, buf) = Inr (?html @ [b], [])"
      by (simp add: render_item_def flush_group)
    moreover from Cons.IH[of "?html @ [b]" "[]"]
    obtain st where st: "render_items items (?html @ [b], []) = Inr st"
      "flush st = ((?html @ [b]) @ group_blocks blks, [])"
      by auto
    moreover have "group_blocks (map (Pair True) buf @ (False, b) # blks) =
        group_blocks (map (Pair True) buf) @ b # group_blocks blks"
      using group_blocks_run[of "(False, b) # blks" buf] group_blocks_run[of "[]" buf]
      by simp
    ultimately show ?thesis using blk False by simp
  qed
qed

lemma render_item_acc:
  "render_item item (html, buf) =
     (case render_item item ([], buf) of
        Inl e \<Rightarrow> Inl e
      | Inr st \<Rightarrow> Inr (html @ fst st, snd st))"
  by (simp add: render_item_def flush_def split: sum.splits prod.splits)

lemma render_items_acc:
  "render_items items (html, buf) =
     (case render_items items ([], buf) of
        Inl e \<Rightarrow> Inl e
      | Inr st \<Rightarrow> Inr (html @ fst st, snd st))"
proof (induction items arbitrary: html buf)
  case Nil
  show ?case by simp
next
  case (Cons item items)
  show ?case
  proof (cases "render_item item ([], buf)")
    case (Inl e)
    then show ?thesis using render_item_acc[of item html buf] by simp
  next
    case (Inr st)
    obtain h b where st: "st = (h, b)" by (cases st)
    from Inr st have 1: "render_item item (html, buf) = Inr (html @ h, b)"
      using render_item_acc[of item html buf] by simp
    show ?thesis
      using Cons.IH[of "html @ h" b] Cons.IH[of h b] Inr st 1
      by (simp split: sum.splits)
  qed
qed

lemma render_section_acc:
  "render_section section html =
     (case render_section section [] of
        Inl e \<Rightarrow> Inl e
      | Inr blocks \<Rightarrow> Inr (html @ blocks))"
proof (cases "section")
  case (JObj d)
  have r: "render_items items (h, []) =
      (case render_items items ([], []) of
        Inl e \<Rightarrow> Inl e
      | Inr st \<Rightarrow> Inr (h @ fst st, snd st))" for items h
    by (rule render_items_acc)
  have f: "fst (flush (h @ a, b)) = h @ fst (flush (a, b))" for h a b
    by (simp add: flush_def)
  show ?thesis
    unfolding JObj render_section_def
    by (auto simp: Let_def r[of _ "html @ _"] r[of _ html] r[of _ "[_]"] f
        split: sum.splits prod.splits)
qed (simp_all add: render_section_def)

lemma render_sections_concat:
  assumes "list_all2 (\<lambda>section blocks. render_section section [] = Inr blocks) secs bss"
  shows "render_sections secs html = Inr (html @ concat bss)"
  using assms
proof (induction secs bss arbitrary: html rule: list_all2_induct)
  case Nil
  show ?case by simp
next
  case (Cons sec secs blocks bss)
  from Cons.hyps(1) have "render_section sec html = Inr (html @ blocks)"
    using render_section_acc[of sec html] by simp
  with Cons.IH[of "html @ blocks"] show ?case by simp
qed

text \<open>The definitions a closed example of the renderer unfolds.\<close>

lemmas eval_defs = item_block_def markdown_value_def markdown_inline_to_html_def escape_def
  replace_chr_def match_at_def u_def py_or_def dict_get_def li_block_def p_block_def
  strip_def lstrip_def rstrip_def strip_bullet_def isspace_def Let_def

lemma item_block_dict:
  assumes "py_or (dict_get d (u ''text'') (JStr [])) (JStr []) = JStr t"
  shows "item_block (JObj d) =
     Inr (dict_get d (u ''type'') (JStr (u ''p'')) = JStr (u ''li''),
          if dict_get d (u ''type'') (JStr (u ''p'')) = JStr (u ''li'')
          then u ''<li>'' @ strip (strip_bullet (markdown_inline_to_html (Some t))) @ u ''</li>''
          else u ''<p>'' @ markdown_inline_to_html (Some t) @ u ''</p>'')"
  using assms by (simp add: item_block_def markdown_value_def li_block_def p_block_def)

text \<open>
  Claim C5. In a section whose heading is a string (or missing) and whose items are
  objects with a string, missing or falsy text, the renderer emits, after the heading
  block, the blocks of the items grouped as \<open>group_blocks\<close> says. An item is a list item
  exactly when its \<open>type\<close> field is \<open>li\<close>; with any other or no type it is a paragraph.
  A maximal run of consecutive list items (one that ends the section or is followed by
  an item that is not \<open>li\<close>) becomes exactly one list block holding its list-item blocks
  in order, also when the run is still pending at the end of the section; an item that
  is not \<open>li\<close> stands alone, outside of any list block, and list items after it start a
  new list block.
\<close>

theorem render_section_groups_runs:
  assumes "dict_get sec (u ''heading'') (JStr []) = JStr heading"
    and "dict_get sec (u ''items'') (JArr []) = JArr (map JObj ds)"
    and "list_all2 (\<lambda>d t. py_or (dict_get d (u ''text'') (JStr [])) (JStr []) = JStr t)
           ds texts"
  shows "(let is_li = (\<lambda>d. dict_get d (u ''type'') (JStr (u ''p'')) = JStr (u ''li''));
              block = (\<lambda>d t.
                 if is_li d
                 then u ''<li>'' @ strip (strip_bullet (markdown_inline_to_html (Some t)))
                        @ u ''</li>''
                 else u ''<p>'' @ markdown_inline_to_html (Some t) @ u ''</p>'');
              head = markdown_inline_to_html (Some heading)
          in render_section (JObj sec) html =
               Inr (html
                    @ (if head \<noteq> [] then [u ''<p><strong>'' @ head @ u ''</strong></p>'']
                       else [])
                    @ group_blocks (map2 (\<lambda>d t. (is_li d, block d t)) ds texts)))
     \<and> group_blocks [] = []
     \<and> (\<forall>run rest. run \<noteq> [] \<and> (rest = [] \<or> \<not> fst (hd rest)) \<longrightarrow>
           group_blocks (map (Pair True) run @ rest) =
             [u ''<ul>''] @ run @ [u ''</ul>''] @ group_blocks rest)
     \<and> (\<forall>block rest. group_blocks ((False, block) # rest) = block # group_blocks rest)"
proof -
  let ?is_li = "\<lambda>d. dict_get d (u ''type'') (JStr (u ''p'')) = JStr (u ''li'')"
  let ?block = "\<lambda>d t.
                 if ?is_li d
                 then u ''<li>'' @ strip (strip_bullet (markdown_inline_to_html (Some t)))
                        @ u ''</li>''
                 else u ''<p>'' @ markdown_inline_to_html (Some t) @ u ''</p>''"
  let ?head = "markdown_inline_to_html (Some heading)"
  let ?blks = "map2 (\<lambda>d t. (?is_li d, ?block d t)) ds texts"
  let ?html = "html @ (if ?head \<noteq> [] then [heading_block ?head] else [])"
  have l: "list_all2 (\<lambda>item blk. item_block item = Inr blk) (map JObj ds) ?blks"
    using assms(3)
  proof (induction ds texts rule: list_all2_induct)
    case Nil
    show ?case by simp
  next
    case (Cons d ds t texts)
    from item_block_dict[OF Cons.hyps(1)] Cons.IH show ?case by simp
  qed
  from render_items_flush[OF l, of ?html "[]"]
  obtain st where st: "render_items (map JObj ds) (?html, []) = Inr st"
    "flush st = (?html @ group_blocks ?blks, [])"
    by auto
  have hb: "heading_block ?head = u ''<p><strong>'' @ ?head @ u ''</strong></p>''"
    by (simp add: heading_block_def)
  have a: "render_section (JObj sec) html =
               Inr (html
                    @ (if ?head \<noteq> [] then [u ''<p><strong>'' @ ?head @ u ''</strong></p>'']
                       else [])
                    @ group_blocks ?blks)"
  proof (cases "?head = []")
    case True
    with st assms(1,2) show ?thesis
      by (simp add: render_section_def markdown_value_def py_iter_def)
  next
    case False
    with st assms(1,2) show ?thesis
      by (simp add: render_section_def markdown_value_def py_iter_def hb)
  qed
  have b: "\<forall>run rest. run \<noteq> [] \<and> (rest = [] \<or> \<not> fst (hd rest)) \<longrightarrow>
           group_blocks (map (Pair True) run @ rest) =
             [u ''<ul>''] @ run @ [u ''</ul>''] @ group_blocks rest"
  proof (intro allI impI)
    fix run :: "pystr list" and rest :: "(bool \<times> pystr) list"
    assume h: "run \<noteq> [] \<and> (rest = [] \<or> \<not> fst (hd rest))"
    then have "rest = [] \<or> \<not> fst (hd rest)" by simp
    from group_blocks_run[OF this, of run] h
    show "group_blocks (map (Pair True) run @ rest) =
             [u ''<ul>''] @ run @ [u ''</ul>''] @ group_blocks rest"
      by simp
  qed
  have c: "\<forall>block rest. group_blocks ((False, block) # rest) = block # group_blocks rest"
    by simp
  have e: "group_blocks [] = []" by simp
  show ?thesis unfolding Let_def using a e b c by (intro conjI)
qed

theorem render_section_groups_runs_witness:
  "render_section
     (JObj [(u ''heading'', JStr (u ''T'')),
            (u ''items'', JArr [
        JObj [(u ''text'', JStr (u ''a'')), (u ''type'', JStr (u ''li''))],
        JObj [(u ''text'', JStr (u ''b'')), (u ''type'', JStr (u ''li''))],
        JObj [(u ''text'', JStr (u ''c'')), (u ''type'', JStr (u ''h2''))],
        JObj [(u ''text'', JStr (u ''d'')), (u ''type'', JStr (u ''li''))],
        JObj [(u ''text'', JStr (u ''e''))],
        JObj [(u ''text'', JNull), (u ''type'', JInt 3)],
        JObj [(u ''text'', JStr (u ''g'')), (u ''type'', JStr (u ''li''))]])]) []
   = Inr [u ''<p><strong>T</strong></p>'',
          u ''<ul>'', u ''<li>a</li>'', u ''<li>b</li>'', u ''</ul>'', u ''<p>c</p>'',
          u ''<ul>'', u ''<li>d</li>'', u ''</ul>'', u ''<p>e</p>'', u ''<p></p>'',
          u ''<ul>'', u ''<li>g</li>'', u ''</ul>'']"
proof -
  let ?ds = "[
        [(u ''text'', JStr (u ''a'')), (u ''type'', JStr (u ''li''))],
        [(u ''text'', JStr (u ''b'')), (u ''type'', JStr (u ''li''))],
        [(u ''text'', JStr (u ''c'')), (u ''type'', JStr (u ''h2''))],
        [(u ''text'', JStr (u ''d'')), (u ''type'', JStr (u ''li''))],
        [(u ''text'', JStr (u ''e''))],
        [(u ''text'', JNull), (u ''type'', JInt 3)],
        [(u ''text'', JStr (u ''g'')), (u ''type'', JStr (u ''li''))]]"
  let ?sec = "[(u ''heading'', JStr (u ''T'')), (u ''items'', JArr (map JObj ?ds))]"
  let ?texts = "[u ''a'', u ''b'', u ''c'', u ''d'', u ''e'', [], u ''g'']"
  have h1: "dict_get ?sec (u ''heading'') (JStr []) = JStr (u ''T'')"
    by (simp add: dict_get_def u_def)
  have h2: "dict_get ?sec (u ''items'') (JArr []) = JArr (map JObj ?ds)"
    by (simp add: dict_get_def u_def)
  have h3: "list_all2 (\<lambda>d t. py_or (dict_get d (u ''text'') (JStr [])) (JStr []) = JStr t)
           ?ds ?texts"
    by (simp add: dict_get_def py_or_def u_def)
  from render_section_groups_runs[OF h1 h2 h3, of "[]", THEN conjunct1]
  have "render_section (JObj ?sec) []
   = Inr [u ''<p><strong>T</strong></p>'',
          u ''<ul>'', u ''<li>a</li>'', u ''<li>b</li>'', u ''</ul>'', u ''<p>c</p>'',
          u ''<ul>'', u ''<li>d</li>'', u ''</ul>'', u ''<p>e</p>'', u ''<p></p>'',
          u ''<ul>'', u ''<li>g</li>'', u ''</ul>'']"
    by (simp add: eval_defs)
  then show ?thesis by simp
qed

text \<open>
  Claim C9, as the spec states it, fails: the blocks are joined with a line feed between
  them, so no line feed follows the last block. A document with one section that has
  the heading \<open>a\<close> and no items renders to the single heading block, with no line feed
  after it.
\<close>

theorem build_html_trailing_newline_counterexample:
  "render_section (JObj [(u ''heading'', JStr (u ''a''))]) [] = Inr [u ''<p><strong>a</strong></p>'']
   \<and> build_html_from_sections (JObj [(u ''sections'', JArr [JObj [(u ''heading'', JStr (u ''a''))]])])
       = Inr (u ''<p><strong>a</strong></p>'')
   \<and> build_html_from_sections (JObj [(u ''sections'', JArr [JObj [(u ''heading'', JStr (u ''a''))]])])
       \<noteq> Inr (u ''<p><strong>a</strong></p>'' @ [10])"
  by code_simp

text \<open>
  Claim C9, amended. For a document whose sections each render, the output is the
  blocks of all sections, in order, joined with one line feed between consecutive
  blocks and none after the last; a document with zero sections gives the empty string.
\<close>

theorem build_html_joins_blocks:
  assumes "map_of d (u ''sections'') = Some (JArr secs)"
    and "list_all2 (\<lambda>sec blocks. render_section sec [] = Inr blocks) secs bss"
  shows "build_html_from_sections (JObj d) = Inr (join [10] (concat bss))
     \<and> (\<forall>b c rest. join [10] (b # c # rest) = b @ [10] @ join [10] (c # rest))
     \<and> (\<forall>b. join [10] [b] = b)
     \<and> join [10] [] = []
     \<and> build_html_from_sections empty_document = Inr []"
proof -
  from assms(1) have t: "truthy (JObj d)" by auto
  from assms(1) have c: "py_contains (JObj d) (u ''sections'') = Inr True"
    by (simp add: py_contains_def)
  from assms(1) have g: "getitem (JObj d) (u ''sections'') = Inr (JArr secs)"
    by (simp add: getitem_def)
  have r: "render_sections secs [] = Inr (concat bss)"
    using render_sections_concat[OF assms(2), of "[]"] by simp
  have a: "build_html_from_sections (JObj d) = Inr (join [10] (concat bss))"
    unfolding build_html_from_sections_def using t c g r
    by (simp add: py_iter_def)
  have e: "build_html_from_sections empty_document = Inr []"
    by code_simp
  from a e show ?thesis by simp
qed

theorem build_html_joins_blocks_witness:
  "build_html_from_sections
     (JObj [(u ''sections'', JArr [JObj [(u ''heading'', JStr (u ''a''))],
                                   JObj [(u ''items'', JArr [JObj [(u ''text'', JStr (u ''b''))]])]])])
   = Inr (u ''<p><strong>a</strong></p>'' @ [10] @ u ''<p>b</p>'')"
proof -
  let ?s1 = "JObj [(u ''heading'', JStr (u ''a''))]"
  let ?s2 = "JObj [(u ''items'', JArr [JObj [(u ''text'', JStr (u ''b''))]])]"
  let ?d = "[(u ''sections'', JArr [?s1, ?s2])]"
  have h1: "map_of ?d (u ''sections'') = Some (JArr [?s1, ?s2])" by simp
  have s: "render_section ?s1 [] = Inr [u ''<p><strong>a</strong></p>'']"
    "render_section ?s2 [] = Inr [u ''<p>b</p>'']"
    by code_simp+
  have h2: "list_all2 (\<lambda>sec blocks. render_section sec [] = Inr blocks) [?s1, ?s2]
              [[u ''<p><strong>a</strong></p>''], [u ''<p>b</p>'']]"
    using s by simp
  from build_html_joins_blocks[OF h1 h2]
  have "build_html_from_sections (JObj ?d) =
      Inr (join [10] (concat [[u ''<p><strong>a</strong></p>''], [u ''<p>b</p>'']]))"
    by (rule conjunct1)
  then show ?thesis by simp
qed

section \<open>Properties of the response extractor\<close>

lemma find_from_range: "find_from t s i = - 1 \<or> int i \<le> find_from t s i"
proof (induction s arbitrary: i)
  case Nil
  show ?case by simp
next
  case (Cons c cs)
  from Cons[of "Suc i"] show ?case by auto
qed

lemma find_from_first:
  "find_from t s i = int (i + n) \<Longrightarrow>
     (\<forall>j<n. \<not> prefix t (drop j s)) \<and> prefix t (drop n s)"
proof (induction s arbitrary: i n)
  case Nil
  then show ?case by (simp split: if_splits)
next
  case (Cons c cs)
  show ?case
  proof (cases "prefix t (c # cs)")
    case True
    with Cons.prems have "n = 0" by simp
    with True show ?thesis by simp
  next
    case False
    with Cons.prems have f: "find_from t cs (Suc i) = int (i + n)" by simp
    with find_from_range[of t cs "Suc i"] obtain m where m: "n = Suc m"
      by (cases n) auto
    with f have "find_from t cs (Suc i) = int (Suc i + m)" by simp
    from Cons.IH[OF this] have ih: "\<forall>j<m. \<not> prefix t (drop j cs)" "prefix t (drop m cs)"
      by simp_all
    have "\<not> prefix t (drop j (c # cs))" if "j < n" for j
      using that m ih(1) False by (cases j) auto
    with ih(2) m show ?thesis by simp
  qed
qed

lemma py_find_first:
  assumes "py_find s t = int n"
  shows "(\<forall>j<n. \<not> prefix t (drop j s)) \<and> prefix t (drop n s)"
  using find_from_first[of t s 0 n] assms by (simp add: py_find_def)

lemma find_from_chr:
  "c \<notin> set pre \<Longrightarrow> find_from [c] (pre @ c # post) i = int (i + length pre)"
  by (induction pre arbitrary: i) auto

lemma rfind_from_absent: "c \<notin> set s \<Longrightarrow> rfind_from [c] s i found = found"
  by (induction s arbitrary: i) auto

lemma rfind_from_chr:
  "c \<notin> set post \<Longrightarrow> rfind_from [c] (pre @ c # post) i found = int (i + length pre)"
  by (induction pre arbitrary: i found) (auto simp: rfind_from_absent)

lemma py_find_chr:
  assumes "a < length s" "s ! a = c" "c \<notin> set (take a s)"
  shows "py_find s [c] = int a"
proof -
  from assms(1,2) have "s = take a s @ c # drop (Suc a) s"
    by (metis id_take_nth_drop)
  then have "py_find s [c] = find_from [c] (take a s @ c # drop (Suc a) s) 0"
    by (simp add: py_find_def)
  also have "\<dots> = int (0 + length (take a s))"
    using assms(3) by (rule find_from_chr)
  finally show ?thesis using assms(1) by simp
qed

lemma py_rfind_chr:
  assumes "b < length s" "s ! b = c" "c \<notin> set (drop (Suc b) s)"
  shows "py_rfind s [c] = int b"
proof -
  from assms(1,2) have "s = take b s @ c # drop (Suc b) s"
    by (metis id_take_nth_drop)
  then have "py_rfind s [c] = rfind_from [c] (take b s @ c # drop (Suc b) s) 0 (- 1)"
    by (simp add: py_rfind_def)
  also have "\<dots> = int (0 + length (take b s))"
    using assms(3) by (rule rfind_from_chr)
  finally show ?thesis using assms(1) by simp
qed

lemma py_slice_nat:
  assumes "a \<le> length s" "b < length s"
  shows "py_slice s (int a) (int b + 1) = take (Suc b - a) (drop a s)"
proof -
  have "clamp_index (length s) (int a) = a"
    using assms(1) by (simp add: clamp_index_def)
  moreover have "clamp_index (length s) (int b + 1) = Suc b"
    using assms(2) by (simp add: clamp_index_def nat_add_distrib)
  ultimately show ?thesis by (simp add: py_slice_def)
qed

lemma ws_then_Some:
  "ws_then k s = Some g \<Longrightarrow> \<exists>w r. s = w @ r \<and> list_all isspace w \<and> k r = Some g"
proof (induction s)
  case Nil
  then show ?case by simp
next
  case (Cons c cs)
  show ?case
  proof (cases "isspace c \<and> ws_then k cs = Some g")
    case True
    with Cons.IH obtain w r where "cs = w @ r" "list_all isspace w" "k r = Some g" by blast
    with True have "c # cs = (c # w) @ r \<and> list_all isspace (c # w) \<and> k r = Some g" by simp
    then show ?thesis by blast
  next
    case False
    with Cons.prems have "k (c # cs) = Some g"
      by (auto split: if_splits option.splits)
    then have "c # cs = [] @ (c # cs) \<and> list_all isspace [] \<and> k (c # cs) = Some g" by simp
    then show ?thesis by blast
  qed
qed

lemma ws_then_greedy:
  assumes "list_all isspace w" "r = [] \<or> \<not> isspace (hd r)" "k r = Some g"
  shows "ws_then k (w @ r) = Some g"
  using assms(1)
proof (induction w)
  case Nil
  from assms(2,3) show ?case by (cases r) auto
next
  case (Cons c w)
  then show ?case by simp
qed

lemma lazy_group_eq:
  "lazy_group s =
     (case ws_then (strip_prefix (u ''```'')) s of
        Some r \<Rightarrow> Some []
      | None \<Rightarrow> (case s of [] \<Rightarrow> None | c # cs \<Rightarrow> map_option ((#) c) (lazy_group cs)))"
  by (cases s) (auto split: option.splits)

lemma fence_not_space: "u ''```'' = 96 # 96 # [96] \<and> \<not> isspace 96"
  by (simp add: u_def isspace_def)

lemma tail_Some:
  assumes "ws_then (strip_prefix (u ''```'')) s = Some x"
  shows "\<exists>w. s = w @ u ''```'' @ x \<and> list_all isspace w"
proof -
  from ws_then_Some[OF assms] obtain w r where
    "s = w @ r" "list_all isspace w" "strip_prefix (u ''```'') r = Some x"
    by blast
  with strip_prefix_Some[of "u ''```''" r x] show ?thesis by auto
qed

lemma tail_fence: "list_all isspace w \<Longrightarrow>
    ws_then (strip_prefix (u ''```'')) (w @ u ''```'' @ post) = Some post"
  by (rule ws_then_greedy) (simp_all add: fence_not_space strip_prefix_def)

lemma lazy_group_Some: "lazy_group s = Some g \<Longrightarrow> \<exists>b c. s = b @ u ''```'' @ c"
proof (induction s arbitrary: g)
  case Nil
  then have "ws_then (strip_prefix (u ''```'')) [] \<noteq> None" by (auto split: option.splits)
  then obtain x where "ws_then (strip_prefix (u ''```'')) [] = Some x" by blast
  from tail_Some[OF this] show ?case by blast
next
  case (Cons c cs)
  show ?case
  proof (cases "ws_then (strip_prefix (u ''```'')) (c # cs)")
    case (Some x)
    from tail_Some[OF this] show ?thesis by blast
  next
    case None
    with Cons.prems obtain g' where "lazy_group cs = Some g'"
      by (auto split: option.splits)
    from Cons.IH[OF this] obtain b d where "cs = b @ u ''```'' @ d" by blast
    then have "c # cs = (c # b) @ u ''```'' @ d" by simp
    then show ?thesis by blast
  qed
qed

lemma after_tag_Some:
  assumes "ws_then lazy_group r = Some g"
  shows "\<exists>b c. r = b @ u ''```'' @ c"
proof -
  from ws_then_Some[OF assms] obtain w r' where r: "r = w @ r'" "lazy_group r' = Some g"
    by blast
  from lazy_group_Some[OF r(2)] obtain b c where "r' = b @ u ''```'' @ c" by blast
  with r(1) have "r = (w @ b) @ u ''```'' @ c" by simp
  then show ?thesis by blast
qed

lemma fence_at_Some:
  assumes "fence_at s = Some g"
  shows "\<exists>b c. s = u ''```'' @ b @ u ''```'' @ c"
proof -
  from assms obtain r where r: "strip_prefix (u ''```'') s = Some r"
    by (auto simp: fence_at_def split: option.splits)
  then have s: "s = u ''```'' @ r" by (rule strip_prefix_Some)
  from assms r consider
    (tagged) r' where "strip_prefix (u ''json'') r = Some r'" "ws_then lazy_group r' = Some g"
    | (plain) "ws_then lazy_group r = Some g"
    by (auto simp: fence_at_def split: option.splits)
  then show ?thesis
  proof cases
    case tagged
    from after_tag_Some[OF tagged(2)] obtain b c where "r' = b @ u ''```'' @ c" by blast
    with strip_prefix_Some[OF tagged(1)] s
    have "s = u ''```'' @ (u ''json'' @ b) @ u ''```'' @ c" by simp
    then show ?thesis by blast
  next
    case plain
    from after_tag_Some[OF plain] s show ?thesis by auto
  qed
qed

lemma re_search_fence_Some:
  "re_search_fence s = Some g \<Longrightarrow> \<exists>a b c. s = a @ u ''```'' @ b @ u ''```'' @ c"
proof (induction s)
  case Nil
  then have "fence_at [] = Some g" by simp
  from fence_at_Some[OF this] show ?case by (metis append_Nil)
next
  case (Cons x xs)
  show ?case
  proof (cases "fence_at (x # xs)")
    case (Some g')
    from fence_at_Some[OF this] show ?thesis by (metis append_Nil)
  next
    case None
    with Cons.prems have "re_search_fence xs = Some g" by simp
    from Cons.IH[OF this] obtain a b c where "xs = a @ u ''```'' @ b @ u ''```'' @ c" by blast
    then have "x # xs = (x # a) @ u ''```'' @ b @ u ''```'' @ c" by simp
    then show ?thesis by blast
  qed
qed

lemma strip_id:
  assumes "s = [] \<or> (\<not> isspace (hd s) \<and> \<not> isspace (last s))"
  shows "strip s = s"
proof (cases "s = []")
  case True
  then show ?thesis by (simp add: strip_def lstrip_def rstrip_def)
next
  case False
  with assms have h: "\<not> isspace (hd s)" "\<not> isspace (last s)" by simp_all
  from False h(1) have 1: "dropWhile isspace s = s" by (cases s) simp_all
  have 2: "dropWhile isspace (rev s) = rev s"
  proof -
    from False obtain ys y where ys: "s = ys @ [y]" by (cases s rule: rev_cases) auto
    with h(2) have "\<not> isspace y" by simp
    with ys show ?thesis by simp
  qed
  from 1 2 show ?thesis by (simp add: strip_def lstrip_def rstrip_def)
qed

lemma re_search_fence_skip:
  "(\<forall>j<length pre. \<not> prefix (u ''```'') (drop j (pre @ x))) \<Longrightarrow>
     re_search_fence (pre @ x) = re_search_fence x"
proof (induction pre)
  case Nil
  show ?case by simp
next
  case (Cons c pre)
  from Cons.prems have "\<not> prefix (u ''```'') (drop 0 ((c # pre) @ x))" by blast
  then have f: "fence_at (c # pre @ x) = None"
    by (simp add: fence_at_def strip_prefix_def)
  have "\<not> prefix (u ''```'') (drop j (pre @ x))" if "j < length pre" for j
  proof -
    from that have "Suc j < length (c # pre)" by simp
    with Cons.prems have "\<not> prefix (u ''```'') (drop (Suc j) ((c # pre) @ x))" by blast
    then show ?thesis by simp
  qed
  with Cons.IH f show ?case by simp
qed

lemma re_search_fence_here: "fence_at x = Some g \<Longrightarrow> re_search_fence x = Some g"
  by (cases x) simp_all

lemma tail_None:
  assumes "y \<noteq> []" "\<not> isspace (last y)"
    and "\<forall>j<length y. \<not> prefix (u ''```'') (drop j (y @ rest))"
  shows "ws_then (strip_prefix (u ''```'')) (y @ rest) = None"
proof (rule ccontr)
  assume "ws_then (strip_prefix (u ''```'')) (y @ rest) \<noteq> None"
  then obtain x where "ws_then (strip_prefix (u ''```'')) (y @ rest) = Some x" by blast
  from tail_Some[OF this] obtain w where
    w: "y @ rest = w @ u ''```'' @ x" "list_all isspace w" by blast
  have "length w < length y"
  proof (rule ccontr)
    assume "\<not> length w < length y"
    then have le: "length y \<le> length w" by simp
    from w(1) have "take (length y) (y @ rest) = take (length y) (w @ u ''```'' @ x)"
      by simp
    with le have "y = take (length y) w" by simp
    then have "set y \<subseteq> set w" by (metis set_take_subset)
    moreover from assms(1) have "last y \<in> set y" by simp
    ultimately have "last y \<in> set w" by blast
    with w(2) assms(2) show False by (simp add: list_all_iff)
  qed
  moreover from w(1) have "drop (length w) (y @ rest) = u ''```'' @ x" by simp
  then have "prefix (u ''```'') (drop (length w) (y @ rest))" by simp
  ultimately show False using assms(3) by blast
qed

lemma lazy_group_inner:
  assumes "list_all isspace ws2"
  shows "inner = [] \<or> \<not> isspace (last inner) \<Longrightarrow>
     (\<forall>j<length inner. \<not> prefix (u ''```'') (drop j (inner @ ws2 @ u ''```'' @ post))) \<Longrightarrow>
     lazy_group (inner @ ws2 @ u ''```'' @ post) = Some inner"
proof (induction inner)
  case Nil
  show ?case using tail_fence[OF assms, of post] by (simp add: lazy_group_eq[of "ws2 @ _"])
next
  case (Cons c inner)
  from Cons.prems(1) have l: "\<not> isspace (last (c # inner))" by simp
  have t: "ws_then (strip_prefix (u ''```'')) ((c # inner) @ ws2 @ u ''```'' @ post) = None"
    using Cons.prems(2) by (intro tail_None l) simp_all
  have 1: "inner = [] \<or> \<not> isspace (last inner)" using l by auto
  have 2: "\<forall>j<length inner. \<not> prefix (u ''```'') (drop j (inner @ ws2 @ u ''```'' @ post))"
  proof (intro allI impI)
    fix j assume "j < length inner"
    then have "Suc j < length (c # inner)" by simp
    with Cons.prems(2) have "\<not> prefix (u ''```'') (drop (Suc j) ((c # inner) @ ws2 @ u ''```'' @ post))"
      by blast
    then show "\<not> prefix (u ''```'') (drop j (inner @ ws2 @ u ''```'' @ post))" by simp
  qed
  from Cons.IH[OF 1 2] t show ?case
    by (simp add: lazy_group_eq[of "c # _"])
qed

lemma after_tag_inner:
  assumes "list_all isspace ws1" "list_all isspace ws2"
    and "inner = [] \<or> (\<not> isspace (hd inner) \<and> \<not> isspace (last inner))"
    and "\<forall>j<length inner. \<not> prefix (u ''```'') (drop j (inner @ ws2 @ u ''```'' @ post))"
  shows "ws_then lazy_group (ws1 @ inner @ ws2 @ u ''```'' @ post) = Some inner"
proof (cases "inner = []")
  case True
  have "lazy_group ([] @ [] @ u ''```'' @ post) = Some []"
    by (rule lazy_group_inner) simp_all
  then have "ws_then lazy_group ((ws1 @ ws2) @ u ''```'' @ post) = Some []"
    using assms(1,2) by (intro ws_then_greedy) (simp_all add: fence_not_space)
  with True show ?thesis by simp
next
  case False
  with assms(3) have h: "\<not> isspace (hd inner)" "\<not> isspace (last inner)" by simp_all
  have "lazy_group (inner @ ws2 @ u ''```'' @ post) = Some inner"
    using assms(2) _ assms(4) by (rule lazy_group_inner) (simp add: h)
  moreover have "hd (inner @ ws2 @ u ''```'' @ post) = hd inner"
    using False by simp
  ultimately show ?thesis
    using assms(1) h(1) by (intro ws_then_greedy) simp_all
qed

lemma fence_found:
  assumes s: "s = pre @ u ''```'' @ tag @ ws1 @ inner @ ws2 @ u ''```'' @ post"
    and a: "py_find s (u ''```'') = int (length pre)"
    and b: "tag = u ''json'' \<or>
            (tag = [] \<and> \<not> prefix (u ''json'') (ws1 @ inner @ ws2 @ u ''```'' @ post))"
    and c: "list_all isspace ws1" "list_all isspace ws2"
    and d: "inner = [] \<or> (\<not> isspace (hd inner) \<and> \<not> isspace (last inner))"
    and e: "py_find (tag @ ws1 @ inner @ ws2 @ u ''```'' @ post) (u ''```'') =
              int (length (tag @ ws1 @ inner @ ws2))"
  shows "re_search_fence s = Some inner"
proof -
  let ?x = "inner @ ws2 @ u ''```'' @ post"
  have e': "\<forall>j<length inner. \<not> prefix (u ''```'') (drop j ?x)"
  proof (intro allI impI)
    fix j assume j: "j < length inner"
    from py_find_first[OF e]
    have "\<forall>k<length (tag @ ws1 @ inner @ ws2).
            \<not> prefix (u ''```'') (drop k (tag @ ws1 @ ?x))"
      by (rule conjunct1)
    moreover from j have "length tag + length ws1 + j < length (tag @ ws1 @ inner @ ws2)"
      by simp
    ultimately
    have "\<not> prefix (u ''```'') (drop (length tag + length ws1 + j) (tag @ ws1 @ ?x))"
      by blast
    moreover have "drop (length tag + length ws1 + j) (tag @ ws1 @ ?x) = drop j ?x"
      by simp
    ultimately show "\<not> prefix (u ''```'') (drop j ?x)" by simp
  qed
  have at: "ws_then lazy_group (ws1 @ ?x) = Some inner"
    using c d e' by (rule after_tag_inner)
  have f: "fence_at (u ''```'' @ tag @ ws1 @ ?x) = Some inner"
    using b
  proof
    assume "tag = u ''json''"
    with at show ?thesis by (simp add: fence_at_def strip_prefix_def)
  next
    assume "tag = [] \<and> \<not> prefix (u ''json'') (ws1 @ inner @ ws2 @ u ''```'' @ post)"
    with at show ?thesis by (simp add: fence_at_def strip_prefix_def)
  qed
  from py_find_first[OF a] s
  have "\<forall>j<length pre. \<not> prefix (u ''```'') (drop j (pre @ u ''```'' @ tag @ ws1 @ ?x))"
    by simp
  from re_search_fence_skip[OF this] re_search_fence_here[OF f] s
  show ?thesis by simp
qed

text \<open>The definitions a closed example of the extractor unfolds.\<close>

lemmas cand_defs = json_candidate_def strip_def lstrip_def rstrip_def isspace_def u_def
  fence_at_def strip_prefix_def py_slice_def py_find_def py_rfind_def clamp_index_def Let_def

lemma json_candidate_fenced:
  assumes "strip raw = pre @ u ''```'' @ tag @ ws1 @ inner @ ws2 @ u ''```'' @ post"
    and "py_find (strip raw) (u ''```'') = int (length pre)"
    and "tag = u ''json'' \<or>
         (tag = [] \<and> \<not> prefix (u ''json'') (ws1 @ inner @ ws2 @ u ''```'' @ post))"
    and "list_all isspace ws1" "list_all isspace ws2"
    and "inner = [] \<or> (\<not> isspace (hd inner) \<and> \<not> isspace (last inner))"
    and "py_find (tag @ ws1 @ inner @ ws2 @ u ''```'' @ post) (u ''```'') =
           int (length (tag @ ws1 @ inner @ ws2))"
  shows "json_candidate raw = inner"
proof -
  have "re_search_fence (strip raw) = Some inner"
    using assms by (rule fence_found)
  with strip_id[OF assms(6)] show ?thesis by (simp add: json_candidate_def)
qed

lemma json_candidate_brackets:
  assumes nf: "\<nexists>a b c. strip raw = a @ u ''```'' @ b @ u ''```'' @ c"
    and o: "opener = (if prefix (u ''['') (strip raw) then 91 else 123)"
    and c: "closer = (if prefix (u ''['') (strip raw) then 93 else 125)"
    and i: "i < length (strip raw)" "strip raw ! i = opener"
           "opener \<notin> set (take i (strip raw))"
    and k: "k < length (strip raw)" "strip raw ! k = closer"
           "closer \<notin> set (drop (Suc k) (strip raw))"
  shows "json_candidate raw = take (Suc k - i) (drop i (strip raw))"
proof -
  let ?s = "strip raw"
  have n: "re_search_fence ?s = None"
  proof (cases "re_search_fence ?s")
    case (Some g)
    from re_search_fence_Some[OF this] nf show ?thesis by blast
  qed simp
  have f: "py_find ?s [opener] = int i" using i by (rule py_find_chr)
  have r: "py_rfind ?s [closer] = int k" using k by (rule py_rfind_chr)
  have sl: "py_slice ?s (int i) (int k + 1) = take (Suc k - i) (drop i ?s)"
    using i(1) k(1) by (intro py_slice_nat) simp_all
  have lit: "u ''['' = [91]" "u '']'' = [93]" "u ''{'' = [123]" "u ''}'' = [125]"
    by (simp_all add: u_def)
  show ?thesis
  proof (cases "prefix (u ''['') ?s")
    case True
    with o c have "opener = 91" "closer = 93" by simp_all
    with f r sl True n show ?thesis by (simp add: json_candidate_def lit)
  next
    case False
    with o c have "opener = 123" "closer = 125" by simp_all
    with f r sl False n show ?thesis by (simp add: json_candidate_def lit)
  qed
qed

lemma json_candidate_example:
  \<open>json_candidate (u ''prose ```json {"sections":[]} ``` more prose'') = u ''{"sections":[]}''\<close>
  by (simp add: cand_defs)

text \<open>
  Claim C3. For a non-empty raw text the extractor parses the candidate and returns the
  parsed value. When the trimmed text holds a fence (the first three backticks of the
  text, an optional \<open>json\<close> tag, white space, the inner contents, white space, and the
  next three backticks), the candidate is exactly the inner contents. When the trimmed
  text holds no two fence marks, the candidate is the slice of the trimmed text from the
  first opening bracket (\<open>[\<close> if the trimmed text begins with it, else \<open>{\<close>) to the last
  matching closing bracket. The text \<open>prose ```json {"sections":[]} ``` more prose\<close> has
  the candidate \<open>{"sections":[]}\<close>, and with a parser that reads it as the document with
  no sections, extraction and normalization give that document.
\<close>

theorem extract_json_candidate:
  \<open>(raw \<noteq> [] \<longrightarrow>
      extract_json_from_model_output loads (Some raw) =
        (case loads (json_candidate raw) of
           Loaded v \<Rightarrow> Inr v
         | DecodeError msg pos \<Rightarrow> Inl (JSONDecodeError msg (json_candidate raw) pos)
         | OtherError e \<Rightarrow> Inl e))
   \<and> (strip raw = pre @ u ''```'' @ tag @ ws1 @ inner @ ws2 @ u ''```'' @ post
        \<and> py_find (strip raw) (u ''```'') = int (length pre)
        \<and> (tag = u ''json'' \<or>
            (tag = [] \<and> \<not> prefix (u ''json'') (ws1 @ inner @ ws2 @ u ''```'' @ post)))
        \<and> list_all isspace ws1 \<and> list_all isspace ws2
        \<and> (inner = [] \<or> (\<not> isspace (hd inner) \<and> \<not> isspace (last inner)))
        \<and> py_find (tag @ ws1 @ inner @ ws2 @ u ''```'' @ post) (u ''```'') =
             int (length (tag @ ws1 @ inner @ ws2))
      \<longrightarrow> json_candidate raw = inner)
   \<and> ((\<nexists>a b c. strip raw = a @ u ''```'' @ b @ u ''```'' @ c)
        \<and> opener = (if prefix (u ''['') (strip raw) then 91 else 123)
        \<and> closer = (if prefix (u ''['') (strip raw) then 93 else 125)
        \<and> i < length (strip raw) \<and> strip raw ! i = opener
        \<and> opener \<notin> set (take i (strip raw))
        \<and> k < length (strip raw) \<and> strip raw ! k = closer
        \<and> closer \<notin> set (drop (Suc k) (strip raw))
      \<longrightarrow> json_candidate raw = take (Suc k - i) (drop i (strip raw)))
   \<and> json_candidate (u ''prose ```json {"sections":[]} ``` more prose'') = u ''{"sections":[]}''
   \<and> (loads (u ''{"sections":[]}'') = Loaded empty_document \<longrightarrow>
        (case extract_json_from_model_output loads
                (Some (u ''prose ```json {"sections":[]} ``` more prose'')) of
           Inl e \<Rightarrow> Inl e
         | Inr v \<Rightarrow> coerce_to_sections_schema v) = Inr empty_document)\<close>
proof -
  have a: "raw \<noteq> [] \<longrightarrow>
      extract_json_from_model_output loads (Some raw) =
        (case loads (json_candidate raw) of
           Loaded v \<Rightarrow> Inr v
         | DecodeError msg pos \<Rightarrow> Inl (JSONDecodeError msg (json_candidate raw) pos)
         | OtherError e \<Rightarrow> Inl e)"
    by (simp add: extract_json_from_model_output_def)
  have b: "strip raw = pre @ u ''```'' @ tag @ ws1 @ inner @ ws2 @ u ''```'' @ post
        \<and> py_find (strip raw) (u ''```'') = int (length pre)
        \<and> (tag = u ''json'' \<or>
            (tag = [] \<and> \<not> prefix (u ''json'') (ws1 @ inner @ ws2 @ u ''```'' @ post)))
        \<and> list_all isspace ws1 \<and> list_all isspace ws2
        \<and> (inner = [] \<or> (\<not> isspace (hd inner) \<and> \<not> isspace (last inner)))
        \<and> py_find (tag @ ws1 @ inner @ ws2 @ u ''```'' @ post) (u ''```'') =
             int (length (tag @ ws1 @ inner @ ws2))
      \<longrightarrow> json_candidate raw = inner"
    using json_candidate_fenced[of raw pre tag ws1 inner ws2 post] by blast
  have c: "(\<nexists>a b c. strip raw = a @ u ''```'' @ b @ u ''```'' @ c)
        \<and> opener = (if prefix (u ''['') (strip raw) then 91 else 123)
        \<and> closer = (if prefix (u ''['') (strip raw) then 93 else 125)
        \<and> i < length (strip raw) \<and> strip raw ! i = opener
        \<and> opener \<notin> set (take i (strip raw))
        \<and> k < length (strip raw) \<and> strip raw ! k = closer
        \<and> closer \<notin> set (drop (Suc k) (strip raw))
      \<longrightarrow> json_candidate raw = take (Suc k - i) (drop i (strip raw))"
    using json_candidate_brackets[of raw opener closer i k] by blast
  have e: "coerce_to_sections_schema empty_document = Inr empty_document"
    by code_simp
  have t: \<open>u ''prose ```json {"sections":[]} ``` more prose'' \<noteq> []\<close>
    by (simp add: u_def)
  have d: \<open>loads (u ''{"sections":[]}'') = Loaded empty_document \<longrightarrow>
        (case extract_json_from_model_output loads
                (Some (u ''prose ```json {"sections":[]} ``` more prose'')) of
           Inl e \<Rightarrow> Inl e
         | Inr v \<Rightarrow> coerce_to_sections_schema v) = Inr empty_document\<close>
    using e t by (simp add: extract_json_from_model_output_def json_candidate_example)
  from a b c json_candidate_example d show ?thesis by (intro conjI)
qed

theorem extract_json_candidate_witness:
  \<open>json_candidate (u ''prose ```json {"sections":[]} ``` more prose'') = u ''{"sections":[]}''
   \<and> (case extract_json_from_model_output sample_loads
              (Some (u ''prose ```json {"sections":[]} ``` more prose'')) of
          Inl e \<Rightarrow> Inl e
        | Inr v \<Rightarrow> coerce_to_sections_schema v) = Inr empty_document
   \<and> json_candidate (u '' Here: {"a": [1]} ok '') = u ''{"a": [1]}''
   \<and> extract_json_from_model_output sample_loads (Some (u '' Here: {"a": [1]} ok ''))
       = Inr (JObj [(u ''a'', JArr [JInt 1])])\<close>
proof -
  let ?fenced = \<open>u ''prose ```json {"sections":[]} ``` more prose''\<close>
  let ?inner = \<open>u ''{"sections":[]}''\<close>
  let ?noisy = \<open>u '' Here: {"a": [1]} ok ''\<close>
  note fenced = extract_json_candidate[of ?fenced sample_loads "u ''prose ''" "u ''json''"
      "u '' ''" ?inner "u '' ''" "u '' more prose''" 0 0 0 0]
  note noisy = extract_json_candidate[of ?noisy sample_loads "[]" "[]" "[]" "[]" "[]" "[]"
      123 125 6 15]
  have h1: "strip ?fenced = u ''prose '' @ u ''```'' @ u ''json'' @ u '' '' @ ?inner @ u '' ''
              @ u ''```'' @ u '' more prose''
        \<and> py_find (strip ?fenced) (u ''```'') = int (length (u ''prose ''))
        \<and> (u ''json'' = u ''json'' \<or>
            (u ''json'' = [] \<and> \<not> prefix (u ''json'') (u '' '' @ ?inner @ u '' '' @ u ''```''
                @ u '' more prose'')))
        \<and> list_all isspace (u '' '') \<and> list_all isspace (u '' '')
        \<and> (?inner = [] \<or> (\<not> isspace (hd ?inner) \<and> \<not> isspace (last ?inner)))
        \<and> py_find (u ''json'' @ u '' '' @ ?inner @ u '' '' @ u ''```'' @ u '' more prose'')
             (u ''```'') =
             int (length (u ''json'' @ u '' '' @ ?inner @ u '' ''))"
    by (simp add: cand_defs)
  from fenced[THEN conjunct2, THEN conjunct1] h1
  have c1: "json_candidate ?fenced = ?inner" by (rule mp)
  have p: "sample_loads ?inner = Loaded empty_document"
    by (simp add: sample_loads_def empty_document_def)
  from fenced[THEN conjunct2, THEN conjunct2, THEN conjunct2, THEN conjunct2] p
  have c2: "(case extract_json_from_model_output sample_loads (Some ?fenced) of
          Inl e \<Rightarrow> Inl e
        | Inr v \<Rightarrow> coerce_to_sections_schema v) = Inr empty_document"
    by (rule mp)
  have s: \<open>strip ?noisy = u ''Here: {"a": [1]} ok''\<close>
    by (simp add: cand_defs)
  have nf: "\<nexists>a b c. strip ?noisy = a @ u ''```'' @ b @ u ''```'' @ c"
  proof
    assume "\<exists>a b c. strip ?noisy = a @ u ''```'' @ b @ u ''```'' @ c"
    then obtain a b c where "strip ?noisy = a @ u ''```'' @ b @ u ''```'' @ c" by blast
    then have "96 \<in> set (strip ?noisy)" by (simp add: u_def)
    then show False unfolding s by (simp add: u_def)
  qed
  have h2: "(\<nexists>a b c. strip ?noisy = a @ u ''```'' @ b @ u ''```'' @ c)
        \<and> 123 = (if prefix (u ''['') (strip ?noisy) then 91 else 123)
        \<and> 125 = (if prefix (u ''['') (strip ?noisy) then 93 else 125)
        \<and> 6 < length (strip ?noisy) \<and> strip ?noisy ! 6 = 123
        \<and> 123 \<notin> set (take 6 (strip ?noisy))
        \<and> 15 < length (strip ?noisy) \<and> strip ?noisy ! 15 = 125
        \<and> 125 \<notin> set (drop (Suc 15) (strip ?noisy))"
    using nf unfolding s by (simp add: u_def)
  from noisy[THEN conjunct2, THEN conjunct2, THEN conjunct1] h2
  have "json_candidate ?noisy = take (Suc 15 - 6) (drop 6 (strip ?noisy))" by (rule mp)
  then have c3: \<open>json_candidate ?noisy = u ''{"a": [1]}''\<close>
    unfolding s by (simp add: u_def)
  have ne: "?noisy \<noteq> []" by (simp add: u_def)
  from noisy[THEN conjunct1] ne
  have "extract_json_from_model_output sample_loads (Some ?noisy) =
        (case sample_loads (json_candidate ?noisy) of
           Loaded v \<Rightarrow> Inr v
         | DecodeError msg pos \<Rightarrow> Inl (JSONDecodeError msg (json_candidate ?noisy) pos)
         | OtherError e \<Rightarrow> Inl e)"
    by (rule mp)
  then have c4: "extract_json_from_model_output sample_loads (Some ?noisy)
       = Inr (JObj [(u ''a'', JArr [JInt 1])])"
    unfolding c3 by (simp add: sample_loads_def u_def)
  from c1 c2 c3 c4 show ?thesis by (intro conjI)
qed

lemma deep_array_facts:
  "deep_array \<noteq> []" "hd deep_array = 91" "last deep_array = 93"
  "length deep_array = 200000" "deep_array ! 199999 = 93" "set deep_array = {91, 93}"
  by (simp_all add: deep_array_def nth_append) auto

lemma json_candidate_deep_array: "json_candidate deep_array = deep_array"
proof -
  have s: "strip deep_array = deep_array"
    by (rule strip_id) (simp add: deep_array_facts isspace_def)
  have nf: "\<nexists>a b c. strip deep_array = a @ u ''```'' @ b @ u ''```'' @ c"
  proof
    assume "\<exists>a b c. strip deep_array = a @ u ''```'' @ b @ u ''```'' @ c"
    then obtain a b c where "deep_array = a @ u ''```'' @ b @ u ''```'' @ c"
      unfolding s by blast
    then have "set deep_array = set (a @ u ''```'' @ b @ u ''```'' @ c)" by (rule arg_cong)
    then have "96 \<in> set deep_array" by (simp add: u_def)
    then show False by (simp add: deep_array_facts)
  qed
  have p: "prefix (u ''['') (strip deep_array)"
  proof -
    have "replicate (Suc 99999) (91::nat) = 91 # replicate 99999 91" by (rule replicate_Suc)
    then have e: "deep_array = 91 # (replicate 99999 91 @ replicate 100000 93)"
      by (simp add: deep_array_def)
    show ?thesis unfolding s by (subst e) (simp add: u_def)
  qed
  have "json_candidate deep_array = take (Suc 199999 - 0) (drop 0 (strip deep_array))"
  proof (rule json_candidate_brackets[OF nf, of 91 93])
    show "91 = (if prefix (u ''['') (strip deep_array) then 91 else (123::nat))"
      using p by simp
    show "93 = (if prefix (u ''['') (strip deep_array) then 93 else (125::nat))"
      using p by simp
    show "0 < length (strip deep_array)" unfolding s by (simp add: deep_array_facts)
    show "strip deep_array ! 0 = 91"
      unfolding s using deep_array_facts(1,2) by (simp add: hd_conv_nth)
    show "91 \<notin> set (take 0 (strip deep_array))" by simp
    show "199999 < length (strip deep_array)" unfolding s by (simp add: deep_array_facts)
    show "strip deep_array ! 199999 = 93" unfolding s by (rule deep_array_facts)
    show "93 \<notin> set (drop (Suc 199999) (strip deep_array))"
      unfolding s by (simp add: deep_array_facts)
  qed
  then show ?thesis unfolding s by (simp add: deep_array_facts)
qed

lemma sample_loads_deep_array: "sample_loads deep_array = OtherError RecursionError"
proof -
  have n: "deep_array \<noteq> x" if "hd x = 123" for x
  proof
    assume "deep_array = x"
    then have "hd deep_array = hd x" by simp
    with that show False by (simp add: deep_array_facts)
  qed
  have \<open>deep_array \<noteq> u ''{"sections":[]}''\<close>
    by (rule n) (simp add: u_def)
  moreover have \<open>deep_array \<noteq> u ''{"a": [1]}''\<close>
    by (rule n) (simp add: u_def)
  ultimately show ?thesis by (simp add: sample_loads_def)
qed

text \<open>
  Claim C4, as the spec states it, fails. There is a third failure: on a text whose
  candidate is an array nested 100000 deep, \<open>json.loads\<close> raises \<open>RecursionError\<close>, which
  the function lets through; it is neither of the two kinds and carries no substring
  (a \<open>ValueError\<close> on an integer literal beyond the digit limit passes in the same way).
  And the two failures the claim names are not of distinct kinds: on an absent text and
  on a blank text the function raises the same \<open>JSONDecodeError\<close>, with the same empty
  document and position, and only the messages differ.
\<close>

theorem extract_json_failures_counterexample:
  "extract_json_from_model_output sample_loads (Some deep_array) = Inl RecursionError
   \<and> extract_json_from_model_output sample_loads None
       = Inl (JSONDecodeError (u ''empty'') [] 0)
   \<and> extract_json_from_model_output sample_loads (Some (u ''   ''))
       = Inl (JSONDecodeError (u ''Expecting value'') [] 0)"
proof -
  have a: "extract_json_from_model_output sample_loads (Some deep_array) = Inl RecursionError"
    by (simp add: extract_json_from_model_output_def json_candidate_deep_array
        sample_loads_deep_array deep_array_facts)
  have b: "extract_json_from_model_output sample_loads None
       = Inl (JSONDecodeError (u ''empty'') [] 0)"
    by (simp add: extract_json_from_model_output_def)
  have cb: "json_candidate (u ''   '') = []" by (simp add: cand_defs)
  have "sample_loads [] = DecodeError (u ''Expecting value'') 0"
    using deep_array_facts(1) by (auto simp: sample_loads_def u_def)
  then have c: "extract_json_from_model_output sample_loads (Some (u ''   ''))
       = Inl (JSONDecodeError (u ''Expecting value'') [] 0)"
    by (simp add: extract_json_from_model_output_def cb) (simp add: u_def)
  from a b c show ?thesis by (intro conjI)
qed



end
